theory Spec2Isabelle
  imports Main "HOL-Library.Word"
begin

section \<open>The file descriptor table and the file I/O gate (userprog/syscall.c)\<close>

text \<open>
  Pointers are addresses, modelled as natural numbers. A slot of the descriptor table
  holds a \<^verbatim>\<open>struct file *\<close>: the null pointer, one of the two small values the code
  compares against for the standard streams (\<^verbatim>\<open>file_obj == 1\<close>, \<^verbatim>\<open>file_obj == 2\<close>), or
  the address of a file object of the kernel heap.
\<close>

type_synonym addr = nat

abbreviation (input) NULL :: addr where "NULL \<equiv> 0"
abbreviation (input) STDIN :: addr where "STDIN \<equiv> 1"
abbreviation (input) STDOUT :: addr where "STDOUT \<equiv> 2"

text \<open>
  Of \<^verbatim>\<open>struct file\<close> (filesys/file.h, not among the sources) syscall.c touches the
  alias count only.
\<close>

record file_struct =
  dupCount :: int

text \<open>
  Calls that leave syscall.c are recorded in the order they are made: the filesystem
  lock, the filesystem and the console.
\<close>

datatype event =
    LockAcquire
  | LockRelease
  | FileClose addr
  | FileRead addr addr "32 word"
  | FileWrite addr addr "32 word"
  | Putbuf "8 word list"

text \<open>
  The ways a call does not return to its caller: \<^verbatim>\<open>exit\<close> (the process is terminated
  with a status), a kernel panic (\<^verbatim>\<open>NOT_REACHED\<close>, \<^verbatim>\<open>PANIC\<close>, a failed \<^verbatim>\<open>ASSERT\<close>), and
  the two memory errors of C that the code can commit: an access through a pointer to
  no live object, and a store at an index outside an array.
\<close>

datatype fault =
    Exit int
  | Panic
  | BadPointer addr
  | OutOfBounds int

text \<open>
  The state syscall.c works on: the fields of the current thread it uses
  (\<^verbatim>\<open>fdTable\<close>, \<^verbatim>\<open>fdIdx\<close>, \<^verbatim>\<open>stdin_count\<close>, \<^verbatim>\<open>stdout_count\<close>), the file objects of the
  kernel heap, the calls made so far, the user memory with its page table, and the
  console input: the keys that \<^verbatim>\<open>input_getc\<close> will deliver, and how many it has
  delivered.
\<close>

record kstate =
  fdTable :: "addr list"
  fdIdx :: nat
  stdin_count :: int
  stdout_count :: int
  files :: "addr \<Rightarrow> file_struct option"
  events :: "event list"
  umem :: "addr \<Rightarrow> 8 word"
  kern_base :: addr
  pml4_mapped :: "addr \<Rightarrow> bool"
  keys :: "nat \<Rightarrow> 8 word"
  keys_taken :: nat

text \<open>
  \<^verbatim>\<open>FDCOUNT_LIMIT\<close> is a macro of threads/thread.h, which is not among the sources. The
  table is the list of its \<^verbatim>\<open>FDCOUNT_LIMIT\<close> slots, so the macro is the length of the
  list.
\<close>

definition FDCOUNT_LIMIT :: "kstate \<Rightarrow> int" where
  "FDCOUNT_LIMIT s = int (length (fdTable s))"

subsection \<open>The address validator\<close>

text \<open>
  \<^verbatim>\<open>check_address\<close> calls \<^verbatim>\<open>exit(-1)\<close> for a null pointer, a pointer that is not a
  user address, and a user address without a mapping. \<^verbatim>\<open>is_user_vaddr\<close> (an address
  below the kernel base) and \<^verbatim>\<open>pml4_get_page\<close> are not among the sources: the kernel
  base and the set of mapped addresses are fields of the state.
\<close>

definition is_user_vaddr :: "kstate \<Rightarrow> addr \<Rightarrow> bool" where
  "is_user_vaddr s uaddr = (uaddr < kern_base s)"

definition check_address :: "kstate \<Rightarrow> addr \<Rightarrow> fault + unit" where
  "check_address s uaddr =
     (if uaddr = NULL \<or> \<not> is_user_vaddr s uaddr \<or> \<not> pml4_mapped s uaddr
      then Inl (Exit (- 1)) else Inr ())"

subsection \<open>The descriptor table\<close>

definition process_get_file :: "kstate \<Rightarrow> int \<Rightarrow> addr" where
  "process_get_file s fd =
     (if fd < 0 \<or> fd \<ge> FDCOUNT_LIMIT s then NULL else fdTable s ! nat fd)"

definition process_close_file :: "kstate \<Rightarrow> int \<Rightarrow> kstate" where
  "process_close_file s fd =
     (if fd < 0 \<or> fd \<ge> FDCOUNT_LIMIT s then s
      else s\<lparr>fdTable := (fdTable s)[nat fd := NULL]\<rparr>)"

text \<open>
  The loop of \<^verbatim>\<open>process_add_file\<close>:
  \<^verbatim>\<open>while (curr->fdIdx < FDCOUNT_LIMIT && fdt[curr->fdIdx]) curr->fdIdx++;\<close>
\<close>

function scan_fdIdx :: "addr list \<Rightarrow> nat \<Rightarrow> nat" where
  "scan_fdIdx fdt i =
     (if i < length fdt \<and> fdt ! i \<noteq> NULL then scan_fdIdx fdt (Suc i) else i)"
  by pat_completeness auto
termination
  by (relation "measure (\<lambda>(fdt, i). length fdt - i)") auto

definition process_add_file :: "kstate \<Rightarrow> addr \<Rightarrow> int \<times> kstate" where
  "process_add_file s f =
     (let s1 = s\<lparr>fdIdx := scan_fdIdx (fdTable s) (fdIdx s)\<rparr>
      in if int (fdIdx s1) \<ge> FDCOUNT_LIMIT s1 then (- 1, s1)
         else (int (fdIdx s1), s1\<lparr>fdTable := (fdTable s1)[fdIdx s1 := f]\<rparr>))"

text \<open>
  Modelled from the spec: \<^verbatim>\<open>file_close\<close> (filesys/file.c, not among the sources)
  releases the file handle. The call is recorded and the object leaves the heap.
\<close>

definition file_close :: "kstate \<Rightarrow> addr \<Rightarrow> kstate" where
  "file_close s f = s\<lparr>files := (files s)(f := None), events := events s @ [FileClose f]\<rparr>"

definition close :: "kstate \<Rightarrow> int \<Rightarrow> fault + kstate" where
  "close s fd =
     (let file_obj = process_get_file s fd
      in if file_obj = NULL then Inr s
         else
           let s1 = (if file_obj = STDIN \<or> fd = 0
                     then s\<lparr>stdin_count := stdin_count s - 1\<rparr>
                     else if file_obj = STDOUT \<or> fd = 1
                     then s\<lparr>stdout_count := stdout_count s - 1\<rparr>
                     else s)
           in if fd \<le> 1 \<or> file_obj \<le> 2 then Inr s1
              else
                let s2 = process_close_file s1 fd
                in (case files s2 file_obj of
                      None \<Rightarrow> Inl (BadPointer file_obj)
                    | Some fo \<Rightarrow>
                        if dupCount fo = 0 then Inr (file_close s2 file_obj)
                        else Inr (s2\<lparr>files := (files s2)
                                     (file_obj \<mapsto> fo\<lparr>dupCount := dupCount fo - 1\<rparr>)\<rparr>)))"

text \<open>
  The first half of \<^verbatim>\<open>dup2\<close> after its two early returns: one more alias for what
  \<^verbatim>\<open>oldfd\<close> refers to.
\<close>

definition dup2_count :: "kstate \<Rightarrow> addr \<Rightarrow> fault + kstate" where
  "dup2_count s old_file =
     (if old_file = STDIN then Inr (s\<lparr>stdin_count := stdin_count s + 1\<rparr>)
      else if old_file = STDOUT then Inr (s\<lparr>stdout_count := stdout_count s + 1\<rparr>)
      else (case files s old_file of
              None \<Rightarrow> Inl (BadPointer old_file)
            | Some fo \<Rightarrow>
                Inr (s\<lparr>files := (files s)(old_file \<mapsto> fo\<lparr>dupCount := dupCount fo + 1\<rparr>)\<rparr>)))"

text \<open>
  The store \<^verbatim>\<open>fdt[newfd] = old_file\<close> of \<^verbatim>\<open>dup2\<close>. The source does not compare \<^verbatim>\<open>newfd\<close>
  with the bounds of the table before it: at an index outside the table the store
  writes memory that is not a slot.
\<close>

definition fdt_store :: "kstate \<Rightarrow> int \<Rightarrow> addr \<Rightarrow> fault + kstate" where
  "fdt_store s i f =
     (if 0 \<le> i \<and> i < int (length (fdTable s))
      then Inr (s\<lparr>fdTable := (fdTable s)[nat i := f]\<rparr>)
      else Inl (OutOfBounds i))"

definition dup2 :: "kstate \<Rightarrow> int \<Rightarrow> int \<Rightarrow> fault + (int \<times> kstate)" where
  "dup2 s oldfd newfd =
     (let old_file = process_get_file s oldfd
      in if old_file = NULL then Inr (- 1, s)
         else if oldfd = newfd then Inr (newfd, s)
         else (case dup2_count s old_file of
                 Inl e \<Rightarrow> Inl e
               | Inr s1 \<Rightarrow>
                   (case close s1 newfd of
                      Inl e \<Rightarrow> Inl e
                    | Inr s2 \<Rightarrow>
                        (case fdt_store s2 newfd old_file of
                           Inl e \<Rightarrow> Inl e
                         | Inr s3 \<Rightarrow> Inr (newfd, s3)))))"

text \<open>
  Modelled from the spec: \<^verbatim>\<open>filesys_open\<close> (filesys/filesys.c, not among the sources)
  creates a file handle, which no descriptor aliases yet: a new object with alias count
  0, at the address the allocator chose, or the null pointer when the file cannot be
  opened.
\<close>

definition filesys_open :: "kstate \<Rightarrow> addr \<Rightarrow> kstate" where
  "filesys_open s file_obj =
     (if file_obj = NULL then s else s\<lparr>files := (files s)(file_obj \<mapsto> \<lparr>dupCount = 0\<rparr>)\<rparr>)"

text \<open>
  \<^verbatim>\<open>open\<close>: \<open>path\<close> is the user's pointer \<^verbatim>\<open>file\<close> to the path, \<^verbatim>\<open>file_obj\<close> what
  \<^verbatim>\<open>filesys_open\<close> returns for it.
\<close>

definition sys_open :: "kstate \<Rightarrow> addr \<Rightarrow> addr \<Rightarrow> fault + (int \<times> kstate)" where
  "sys_open s path file_obj =
     (case check_address s path of
        Inl e \<Rightarrow> Inl e
      | Inr _ \<Rightarrow>
          let s1 = filesys_open s file_obj
          in if file_obj = NULL then Inr (- 1, s1)
             else
               let (fd, s2) = process_add_file s1 file_obj
               in if fd = - 1 then Inr (fd, file_close s2 file_obj) else Inr (fd, s2))"

subsection \<open>The file I/O gate\<close>

text \<open>
  The loop of \<^verbatim>\<open>read\<close> on the input stream: a key is taken and stored at \<^verbatim>\<open>buf\<close>, which
  advances; a zero byte ends the loop before \<^verbatim>\<open>i\<close> is incremented. The result is the
  final \<^verbatim>\<open>i\<close>.
\<close>

function getc_loop :: "kstate \<Rightarrow> addr \<Rightarrow> nat \<Rightarrow> nat \<Rightarrow> nat \<times> kstate" where
  "getc_loop s buf i sz =
     (if i < sz then
        let c = keys s (keys_taken s);
            s1 = s\<lparr>keys_taken := keys_taken s + 1, umem := (umem s)(buf := c)\<rparr>
        in if c = 0 then (i, s1) else getc_loop s1 (buf + 1) (i + 1) sz
      else (i, s))"
  by pat_completeness auto
termination
  by (relation "measure (\<lambda>(s, buf, i, sz). sz - i)") auto

declare getc_loop.simps [simp del]

text \<open>
  \<^verbatim>\<open>read\<close> and \<^verbatim>\<open>write\<close> return a C \<^verbatim>\<open>int\<close>, here a 32-bit word (\<open>- 1\<close> is the word of
  all ones); the \<^verbatim>\<open>unsigned size\<close> is the word \<open>sz\<close>. \<^verbatim>\<open>return size\<close> converts between the two and
  keeps the bits. What \<^verbatim>\<open>file_read\<close> and \<^verbatim>\<open>file_write\<close> (filesys/file.c, not among the
  sources) return is the parameter \<open>ret\<close>; their calls are recorded between the
  acquisition and the release of the filesystem lock.
\<close>

definition read :: "kstate \<Rightarrow> int \<Rightarrow> addr \<Rightarrow> 32 word \<Rightarrow> 32 word \<Rightarrow> fault + (32 word \<times> kstate)" where
  "read s fd buffer sz ret =
     (case check_address s buffer of
        Inl e \<Rightarrow> Inl e
      | Inr _ \<Rightarrow>
          let file_obj = process_get_file s fd
          in if file_obj = NULL then Inr (- 1, s)
             else if file_obj = STDIN then
               (if stdin_count s = 0 then Inl Panic
                else let (i, s1) = getc_loop s buffer 0 (unat sz) in Inr (of_nat i, s1))
             else if file_obj = STDOUT then Inr (- 1, s)
             else Inr (ret, s\<lparr>events := events s @
                          [LockAcquire, FileRead file_obj buffer sz, LockRelease]\<rparr>))"

text \<open>\<^verbatim>\<open>putbuf (buffer, size)\<close> sends the \<^verbatim>\<open>size\<close> bytes at \<^verbatim>\<open>buffer\<close> to the console.\<close>

definition putbuf :: "kstate \<Rightarrow> addr \<Rightarrow> 32 word \<Rightarrow> kstate" where
  "putbuf s buffer sz =
     s\<lparr>events := events s @ [Putbuf (map (umem s) [buffer ..< buffer + unat sz])]\<rparr>"

definition sys_write :: "kstate \<Rightarrow> int \<Rightarrow> addr \<Rightarrow> 32 word \<Rightarrow> 32 word \<Rightarrow> fault + (32 word \<times> kstate)" where
  "sys_write s fd buffer sz ret =
     (case check_address s buffer of
        Inl e \<Rightarrow> Inl e
      | Inr _ \<Rightarrow>
          let file_obj = process_get_file s fd
          in if file_obj = NULL then Inr (- 1, s)
             else if file_obj = STDOUT then
               (if stdout_count s = 0 then Inl Panic
                else Inr (sz, putbuf s buffer sz))
             else if file_obj = STDIN then Inr (- 1, s)
             else Inr (ret, s\<lparr>events := events s @
                          [LockAcquire, FileWrite file_obj buffer sz, LockRelease]\<rparr>))"


section \<open>Anonymous pages and the swap table (vm/anon.c)\<close>

text \<open>
  Modelled from the spec: the page and sector sizes (\<^verbatim>\<open>PGSIZE\<close> of threads/vaddr.h,
  \<^verbatim>\<open>DISK_SECTOR_SIZE\<close> of devices/disk.h, neither among the sources) are those of the
  spec's example, a 4096-byte page and 512-byte sectors. The two macros of anon.c
  follow.
\<close>

definition PGSIZE :: nat where
  "PGSIZE = 4096"

definition DISK_SECTOR_SIZE :: nat where
  "DISK_SECTOR_SIZE = 512"

definition CEILING :: "nat \<Rightarrow> nat \<Rightarrow> nat" where
  "CEILING x y = (x + y - 1) div y"

definition SECTORS_PER_PAGE :: nat where
  "SECTORS_PER_PAGE = CEILING PGSIZE DISK_SECTOR_SIZE"

text \<open>
  Modelled from the spec: the slot index of a page without a slot is the sentinel
  "invalid" value. Its macro \<^verbatim>\<open>INVALID_SLOT_IDX\<close> (vm/anon.h) is not among the sources; it
  is taken as the largest \<^verbatim>\<open>size_t\<close>, which is also what \<^verbatim>\<open>bitmap_scan_and_flip\<close> answers
  when it finds nothing (\<^verbatim>\<open>BITMAP_ERROR\<close>).
\<close>

definition BITMAP_ERROR :: nat where
  "BITMAP_ERROR = 2 ^ 64 - 1"

definition INVALID_SLOT_IDX :: nat where
  "INVALID_SLOT_IDX = 2 ^ 64 - 1"

text \<open>
  \<^verbatim>\<open>struct frame\<close>, \<^verbatim>\<open>struct anon_page\<close> and \<^verbatim>\<open>struct page\<close>, with the fields anon.c uses.
  \<^verbatim>\<open>page->frame\<close> is a pointer to a frame object of the kernel heap, \<^verbatim>\<open>owner\<close> a pointer
  to the owning thread.
\<close>

record frame_struct =
  kva :: addr

record anon_page =
  owner :: addr
  swap_slot_idx :: nat

record page =
  va :: addr
  frame :: addr
  anon :: anon_page

text \<open>Calls that leave anon.c: the sector transfers and the owner's page table.\<close>

datatype vm_event =
    DiskRead nat addr
  | DiskWrite nat addr
  | Pml4ClearPage addr addr
  | Pml4SetDirty addr addr bool

text \<open>
  The state anon.c works on: the swap table (one bit per slot), the sectors of the
  swap disk (sector number and offset to byte), kernel memory, the frame objects of
  the heap, the list the frames' \<^verbatim>\<open>elem\<close> members are linked in, and the calls made.
\<close>

record vm_state =
  swap_table :: "bool list"
  disk :: "nat \<Rightarrow> nat \<Rightarrow> 8 word"
  kmem :: "addr \<Rightarrow> 8 word"
  frames :: "addr \<Rightarrow> frame_struct option"
  frame_list :: "addr list"
  vm_trace :: "vm_event list"

subsection \<open>The collaborators\<close>

text \<open>
  Modelled from the spec: the swap slot allocator (lib/kernel/bitmap.c, not among the
  sources). \<^verbatim>\<open>bitmap_scan_and_flip (swap_table, 0, 1, false)\<close> is a first-fit scan for a
  clear bit, which it sets, answering its index, or \<^verbatim>\<open>BITMAP_ERROR\<close> when every bit is
  set. \<^verbatim>\<open>bitmap_set\<close> writes one bit.
\<close>

primrec bitmap_scan :: "bool list \<Rightarrow> nat option" where
  "bitmap_scan [] = None"
| "bitmap_scan (b # bs) = (if \<not> b then Some 0 else map_option Suc (bitmap_scan bs))"

definition bitmap_scan_and_flip :: "bool list \<Rightarrow> nat \<times> bool list" where
  "bitmap_scan_and_flip b =
     (case bitmap_scan b of None \<Rightarrow> (BITMAP_ERROR, b) | Some idx \<Rightarrow> (idx, b[idx := True]))"

definition bitmap_set :: "bool list \<Rightarrow> nat \<Rightarrow> bool \<Rightarrow> bool list" where
  "bitmap_set b idx v = b[idx := v]"

text \<open>
  Modelled from the spec: the block device (devices/disk.c, not among the sources)
  transfers one sector of \<^verbatim>\<open>DISK_SECTOR_SIZE\<close> bytes between the disk and memory, and does
  not fail.
\<close>

definition disk_write :: "vm_state \<Rightarrow> nat \<Rightarrow> addr \<Rightarrow> vm_state" where
  "disk_write s sec buf =
     s\<lparr>disk := (disk s)(sec := (\<lambda>ofs. if ofs < DISK_SECTOR_SIZE then kmem s (buf + ofs)
                                     else disk s sec ofs)),
       vm_trace := vm_trace s @ [DiskWrite sec buf]\<rparr>"

definition disk_read :: "vm_state \<Rightarrow> nat \<Rightarrow> addr \<Rightarrow> vm_state" where
  "disk_read s sec buf =
     s\<lparr>kmem := (\<lambda>a. if buf \<le> a \<and> a < buf + DISK_SECTOR_SIZE then disk s sec (a - buf)
                     else kmem s a),
       vm_trace := vm_trace s @ [DiskRead sec buf]\<rparr>"

text \<open>
  Modelled from the spec: the page table module (threads/mmu.c) and the frame tracking
  (vm/vm.c, lib/kernel/list.c), not among the sources. The page table calls are
  recorded; \<^verbatim>\<open>list_remove\<close> takes the frame out of the list that holds it and \<^verbatim>\<open>free\<close>
  releases the frame object.
\<close>

definition pml4_clear_page :: "vm_state \<Rightarrow> addr \<Rightarrow> addr \<Rightarrow> vm_state" where
  "pml4_clear_page s thr upage = s\<lparr>vm_trace := vm_trace s @ [Pml4ClearPage thr upage]\<rparr>"

definition pml4_set_dirty :: "vm_state \<Rightarrow> addr \<Rightarrow> addr \<Rightarrow> bool \<Rightarrow> vm_state" where
  "pml4_set_dirty s thr upage d = s\<lparr>vm_trace := vm_trace s @ [Pml4SetDirty thr upage d]\<rparr>"

definition list_remove :: "vm_state \<Rightarrow> addr \<Rightarrow> vm_state" where
  "list_remove s f = s\<lparr>frame_list := removeAll f (frame_list s)\<rparr>"

definition free :: "vm_state \<Rightarrow> addr \<Rightarrow> vm_state" where
  "free s f = s\<lparr>frames := (frames s)(f := None)\<rparr>"

subsection \<open>The operations of anon.c\<close>

text \<open>
  \<^verbatim>\<open>vm_anon_init\<close>: one bit, clear, for each whole slot of the swap disk, whose size in
  sectors is \<open>num_sector\<close> (\<^verbatim>\<open>disk_size (swap_disk)\<close>, a 32-bit \<^verbatim>\<open>disk_sector_t\<close>).
\<close>

definition vm_anon_init :: "vm_state \<Rightarrow> nat \<Rightarrow> vm_state" where
  "vm_anon_init s num_sector =
     (let max_slot = num_sector div SECTORS_PER_PAGE
      in s\<lparr>swap_table := replicate max_slot False\<rparr>)"

text \<open>
  \<^verbatim>\<open>anon_initializer\<close> sets the fields of the anonymous page; \<open>thread_current\<close> is the
  running thread. (The operations table it also installs plays no part below.)
\<close>

definition anon_initializer :: "page \<Rightarrow> addr \<Rightarrow> bool \<times> page" where
  "anon_initializer pg thread_current =
     (True, pg\<lparr>anon := \<lparr>owner = thread_current, swap_slot_idx = INVALID_SLOT_IDX\<rparr>\<rparr>)"

text \<open>
  The sector of a slot's \<open>i\<close>-th part:
  \<^verbatim>\<open>(disk_sector_t) (swap_slot_idx * SECTORS_PER_PAGE) + i\<close>, in 32-bit arithmetic.
\<close>

definition sec_no :: "nat \<Rightarrow> nat \<Rightarrow> nat" where
  "sec_no slot i = ((slot * SECTORS_PER_PAGE) mod 2 ^ 32 + i) mod 2 ^ 32"

text \<open>The two loops \<^verbatim>\<open>for (int i = 0; i < SECTORS_PER_PAGE; i++)\<close>, from \<open>i\<close> on.\<close>

function swap_in_loop :: "vm_state \<Rightarrow> nat \<Rightarrow> addr \<Rightarrow> nat \<Rightarrow> vm_state" where
  "swap_in_loop s slot kv i =
     (if i < SECTORS_PER_PAGE
      then swap_in_loop (disk_read s (sec_no slot i) (kv + i * DISK_SECTOR_SIZE)) slot kv (i + 1)
      else s)"
  by pat_completeness auto
termination
  by (relation "measure (\<lambda>(s, slot, kv, i). SECTORS_PER_PAGE - i)") auto

function swap_out_loop :: "vm_state \<Rightarrow> nat \<Rightarrow> addr \<Rightarrow> nat \<Rightarrow> vm_state" where
  "swap_out_loop s slot kv i =
     (if i < SECTORS_PER_PAGE
      then swap_out_loop (disk_write s (sec_no slot i) (kv + i * DISK_SECTOR_SIZE)) slot kv (i + 1)
      else s)"
  by pat_completeness auto
termination
  by (relation "measure (\<lambda>(s, slot, kv, i). SECTORS_PER_PAGE - i)") auto

declare swap_in_loop.simps [simp del] swap_out_loop.simps [simp del]

text \<open>\<^verbatim>\<open>anon_swap_in (page, kva)\<close>: the result, the state and the page as it leaves it.\<close>

definition anon_swap_in :: "vm_state \<Rightarrow> page \<Rightarrow> addr \<Rightarrow> bool \<times> vm_state \<times> page" where
  "anon_swap_in s pg kv =
     (if swap_slot_idx (anon pg) = INVALID_SLOT_IDX then (False, s, pg)
      else
        let s1 = swap_in_loop s (swap_slot_idx (anon pg)) kv 0;
            s2 = s1\<lparr>swap_table := bitmap_set (swap_table s1) (swap_slot_idx (anon pg)) False\<rparr>;
            pg1 = pg\<lparr>anon := (anon pg)\<lparr>swap_slot_idx := INVALID_SLOT_IDX\<rparr>\<rparr>
        in (True, s2, pg1))"

text \<open>
  \<^verbatim>\<open>anon_swap_out (page)\<close>; the argument is \<open>None\<close> for the null pointer. The slot is
  taken from the swap table first; the test for a missing page, frame or address comes
  after it.
\<close>

definition anon_swap_out ::
  "vm_state \<Rightarrow> page option \<Rightarrow> fault + (bool \<times> vm_state \<times> page option)" where
  "anon_swap_out s page =
     (let (idx, b) = bitmap_scan_and_flip (swap_table s);
          s1 = s\<lparr>swap_table := b\<rparr>
      in if idx = BITMAP_ERROR then Inl Panic
         else
           (case page of
              None \<Rightarrow> Inr (False, s1, page)
            | Some pg \<Rightarrow>
                if frame pg = NULL then Inr (False, s1, page)
                else
                  (case frames s1 (frame pg) of
                     None \<Rightarrow> Inl (BadPointer (frame pg))
                   | Some fr \<Rightarrow>
                       if kva fr = NULL then Inr (False, s1, page)
                       else
                         let s2 = swap_out_loop s1 idx (kva fr) 0;
                             pg1 = pg\<lparr>anon := (anon pg)\<lparr>swap_slot_idx := idx\<rparr>\<rparr>;
                             s3 = pml4_clear_page s2 (owner (anon pg1)) (va pg1);
                             s4 = pml4_set_dirty s3 (owner (anon pg1)) (va pg1) False;
                             pg2 = pg1\<lparr>frame := NULL\<rparr>
                         in Inr (True, s4, Some pg2))))"

text \<open>
  \<^verbatim>\<open>anon_destroy (page)\<close>. The page itself is not written: "PAGE will be freed by the
  caller".
\<close>

definition anon_destroy :: "vm_state \<Rightarrow> page \<Rightarrow> fault + vm_state" where
  "anon_destroy s pg =
     (if frame pg \<noteq> NULL then
        (case frames s (frame pg) of
           None \<Rightarrow> Inl (BadPointer (frame pg))
         | Some fr \<Rightarrow> Inr (free (list_remove s (frame pg)) (frame pg)))
      else if \<not> swap_slot_idx (anon pg) \<noteq> INVALID_SLOT_IDX then Inl Panic
      else Inr (s\<lparr>swap_table := bitmap_set (swap_table s) (swap_slot_idx (anon pg)) False\<rparr>))"


text \<open>
  The swap table has a slot for each whole page of the swap disk, whose sectors are
  counted by a 32-bit \<^verbatim>\<open>disk_sector_t\<close>: every sector of every slot has a 32-bit number.
  \<^verbatim>\<open>vm_anon_init\<close> makes such a table and no operation changes its length.
\<close>

definition swap_wf :: "vm_state \<Rightarrow> bool" where
  "swap_wf s = (length (swap_table s) * SECTORS_PER_PAGE \<le> 2 ^ 32)"


section \<open>Properties of the descriptor table\<close>

definition alias_ok :: "kstate \<Rightarrow> addr \<Rightarrow> bool" where
  "alias_ok s p = (case files s p of None \<Rightarrow> False
                   | Some fo \<Rightarrow> dupCount fo + 1 = int (count_list (fdTable s) p))"

definition fd_inv :: "kstate \<Rightarrow> bool" where
  "fd_inv s = (\<forall>p \<in> set (fdTable s). 2 < p \<longrightarrow> alias_ok s p)"

text \<open>
  The weaker property that every state a process can reach has: a file handle in the
  table is a live object whose alias count is at least the number of slots that hold
  it, less one. \<open>credit_live\<close> is the same while one more alias of \<open>x\<close> is counted but
  not yet stored.
\<close>

definition fd_live :: "kstate \<Rightarrow> bool" where
  "fd_live s =
     (\<forall>p \<in> set (fdTable s). 2 < p \<longrightarrow>
        (case files s p of None \<Rightarrow> False
         | Some fo \<Rightarrow> int (count_list (fdTable s) p) \<le> dupCount fo + 1))"

definition credit_live :: "kstate \<Rightarrow> addr \<Rightarrow> bool" where
  "credit_live s x =
     (\<forall>q \<in> set (fdTable s). 2 < q \<longrightarrow>
        (case files s q of None \<Rightarrow> False
         | Some fo \<Rightarrow>
             int (count_list (fdTable s) q) + (if q = x then 1 else 0) \<le> dupCount fo + 1))"

lemma count_list_update_nat:
  "i < length xs \<Longrightarrow>
   count_list (xs[i := v]) p + (if xs ! i = p then 1 else 0) =
     count_list xs p + (if v = p then 1 else 0)"
proof (induction xs arbitrary: i)
  case Nil
  then show ?case by simp
next
  case (Cons x xs)
  show ?case
  proof (cases i)
    case 0
    then show ?thesis by simp
  next
    case (Suc j)
    with Cons.prems have "j < length xs" by simp
    from Cons.IH [OF this] show ?thesis using Suc by (auto split: if_splits)
  qed
qed

lemma count_list_update:
  "i < length xs \<Longrightarrow>
   int (count_list (xs[i := v]) p) =
     int (count_list xs p) - (if xs ! i = p then 1 else 0) + (if v = p then 1 else 0)"
  using count_list_update_nat [of i xs v p] by (simp split: if_splits)

lemma count_list_pos: "p \<in> set xs \<Longrightarrow> 0 < count_list xs p"
  by (metis count_list_0_iff gr0I)


lemma get_file_nonnull:
  "process_get_file s fd \<noteq> NULL \<Longrightarrow>
   0 \<le> fd \<and> nat fd < length (fdTable s) \<and> fdTable s ! nat fd = process_get_file s fd"
  by (auto simp: process_get_file_def FDCOUNT_LIMIT_def split: if_splits)

lemma get_file_mem:
  "process_get_file s fd \<noteq> NULL \<Longrightarrow> process_get_file s fd \<in> set (fdTable s)"
  using get_file_nonnull [of s fd] by (metis nth_mem)

lemma fd_inv_live:
  "fd_inv s \<Longrightarrow> p \<in> set (fdTable s) \<Longrightarrow> 2 < p \<Longrightarrow>
   \<exists>fo. files s p = Some fo \<and> dupCount fo + 1 = int (count_list (fdTable s) p)"
  by (auto simp: fd_inv_def alias_ok_def split: option.splits)

lemma fd_inv_cong:
  "fdTable s' = fdTable s \<Longrightarrow> files s' = files s \<Longrightarrow> fd_inv s' = fd_inv s"
  by (simp add: fd_inv_def alias_ok_def cong: option.case_cong)


definition close_counts :: "kstate \<Rightarrow> int \<Rightarrow> kstate" where
  "close_counts s fd =
     (if process_get_file s fd = STDIN \<or> fd = 0 then s\<lparr>stdin_count := stdin_count s - 1\<rparr>
      else if process_get_file s fd = STDOUT \<or> fd = 1
      then s\<lparr>stdout_count := stdout_count s - 1\<rparr> else s)"

lemma close_null: "process_get_file s fd = NULL \<Longrightarrow> close s fd = Inr s"
  by (simp add: close_def)

lemma close_std:
  "process_get_file s fd \<noteq> NULL \<Longrightarrow> fd \<le> 1 \<or> process_get_file s fd \<le> 2 \<Longrightarrow>
   close s fd = Inr (close_counts s fd)"
  by (simp add: close_def close_counts_def Let_def)

lemma close_handle:
  "2 < process_get_file s fd \<Longrightarrow> 1 < fd \<Longrightarrow> files s (process_get_file s fd) = Some fo \<Longrightarrow>
   close s fd =
     Inr (if dupCount fo = 0 then file_close (process_close_file s fd) (process_get_file s fd)
          else (process_close_file s fd)
                 \<lparr>files := (files s)(process_get_file s fd \<mapsto> fo\<lparr>dupCount := dupCount fo - 1\<rparr>)\<rparr>)"
  by (simp add: close_def Let_def process_close_file_def)

lemma close_dangling:
  "2 < process_get_file s fd \<Longrightarrow> 1 < fd \<Longrightarrow> files s (process_get_file s fd) = None \<Longrightarrow>
   close s fd = Inl (BadPointer (process_get_file s fd))"
  by (simp add: close_def Let_def process_close_file_def)


definition credit_inv :: "kstate \<Rightarrow> addr \<Rightarrow> bool" where
  "credit_inv s x =
     (\<forall>q \<in> set (fdTable s). 2 < q \<longrightarrow>
        (case files s q of None \<Rightarrow> False
         | Some fo \<Rightarrow>
             dupCount fo + 1 = int (count_list (fdTable s) q) + (if q = x then 1 else 0)))"

lemma fd_inv_credit: "fd_inv s = credit_inv s NULL"
  by (auto simp: fd_inv_def alias_ok_def credit_inv_def split: option.splits)

lemma credit_inv_live:
  "credit_inv s x \<Longrightarrow> q \<in> set (fdTable s) \<Longrightarrow> 2 < q \<Longrightarrow>
   \<exists>fo. files s q = Some fo \<and>
        dupCount fo + 1 = int (count_list (fdTable s) q) + (if q = x then 1 else 0)"
  by (auto simp: credit_inv_def split: option.splits)

lemma credit_inv_cong:
  "fdTable s' = fdTable s \<Longrightarrow> files s' = files s \<Longrightarrow> credit_inv s' x = credit_inv s x"
  by (simp add: credit_inv_def cong: option.case_cong)

lemma close_frame:
  assumes "process_get_file s fd = NULL \<or> fd \<le> 1 \<or> process_get_file s fd \<le> 2"
    and "close s fd = Inr s'"
  shows "fdTable s' = fdTable s \<and> files s' = files s \<and> events s' = events s"
proof -
  from assms have "s' = s \<or> s' = close_counts s fd"
    using close_null [of s fd] close_std [of s fd] by auto
  then show ?thesis by (auto simp: close_counts_def)
qed

lemma close_handle_effect:
  assumes big: "2 < process_get_file s fd" and fd2: "1 < fd"
    and fo: "files s (process_get_file s fd) = Some fo"
    and cl: "close s fd = Inr s'"
  shows "fdTable s' = (fdTable s)[nat fd := NULL]"
    and "files s' = (if dupCount fo = 0 then (files s)(process_get_file s fd := None)
                     else (files s)(process_get_file s fd \<mapsto> fo\<lparr>dupCount := dupCount fo - 1\<rparr>))"
    and "events s' = events s @ (if dupCount fo = 0 then [FileClose (process_get_file s fd)] else [])"
proof -
  let ?p = "process_get_file s fd"
  from big have nn: "?p \<noteq> NULL" by simp
  from get_file_nonnull [OF nn]
  have rng: "0 \<le> fd" "nat fd < length (fdTable s)" by auto
  note eq = close_handle [OF big fd2 fo]
  have pcf: "fdTable (process_close_file s fd) = (fdTable s)[nat fd := NULL]"
    using rng by (auto simp: process_close_file_def FDCOUNT_LIMIT_def)
  have pcf2: "files (process_close_file s fd) = files s"
    "events (process_close_file s fd) = events s"
    by (simp_all add: process_close_file_def)
  show "fdTable s' = (fdTable s)[nat fd := NULL]"
    using cl eq pcf by (cases "dupCount fo = 0") (auto simp: file_close_def)
  show "files s' = (if dupCount fo = 0 then (files s)(?p := None)
                    else (files s)(?p \<mapsto> fo\<lparr>dupCount := dupCount fo - 1\<rparr>))"
    using cl eq pcf2 by (cases "dupCount fo = 0") (auto simp: file_close_def)
  show "events s' = events s @ (if dupCount fo = 0 then [FileClose ?p] else [])"
    using cl eq pcf2 by (cases "dupCount fo = 0") (auto simp: file_close_def)
qed

lemma close_total_credit: "credit_inv s x \<Longrightarrow> \<exists>s'. close s fd = Inr s'"
proof (cases "process_get_file s fd = NULL \<or> fd \<le> 1 \<or> process_get_file s fd \<le> 2")
  case True
  then show ?thesis using close_null [of s fd] close_std [of s fd] by blast
next
  case False
  assume inv: "credit_inv s x"
  let ?p = "process_get_file s fd"
  from False have "?p \<in> set (fdTable s)" "2 < ?p"
    using get_file_mem [of s fd] by auto
  from credit_inv_live [OF inv this] obtain fo where "files s ?p = Some fo" by blast
  with False show ?thesis using close_handle [of s fd fo] by simp
qed

lemma credit_inv_close:
  assumes inv: "credit_inv s x" and cl: "close s fd = Inr s'"
  shows "credit_inv s' x"
proof (cases "process_get_file s fd = NULL \<or> fd \<le> 1 \<or> process_get_file s fd \<le> 2")
  case True
  from close_frame [OF True cl] inv credit_inv_cong [of s' s x] show ?thesis by blast
next
  case False
  let ?p = "process_get_file s fd"
  from False have nn: "?p \<noteq> NULL" and big: "2 < ?p" and fd2: "1 < fd" by auto
  from get_file_nonnull [OF nn]
  have rng: "0 \<le> fd" "nat fd < length (fdTable s)" and at: "fdTable s ! nat fd = ?p" by auto
  have mem: "?p \<in> set (fdTable s)" by (rule get_file_mem [OF nn])
  from credit_inv_live [OF inv mem big] obtain fo
    where fo: "files s ?p = Some fo"
      and cnt: "dupCount fo + 1 = int (count_list (fdTable s) ?p) + (if ?p = x then 1 else 0)"
    by blast
  note tbl = close_handle_effect(1) [OF big fd2 fo cl]
  note fls = close_handle_effect(2) [OF big fd2 fo cl]
  show ?thesis
    unfolding credit_inv_def
  proof (intro ballI impI)
    fix q assume q: "q \<in> set (fdTable s')" and qb: "2 < q"
    from q tbl have qs: "q \<in> set (fdTable s)"
      using set_update_subset_insert [of "fdTable s" "nat fd" NULL] qb by auto
    from credit_inv_live [OF inv qs qb] obtain go
      where go: "files s q = Some go"
        and gcnt: "dupCount go + 1 = int (count_list (fdTable s) q) + (if q = x then 1 else 0)"
      by blast
    have c': "int (count_list (fdTable s') q) =
              int (count_list (fdTable s) q) - (if ?p = q then 1 else 0)"
      using count_list_update [OF rng(2), of NULL q] at qb by (simp add: tbl)
    have pos: "0 < count_list (fdTable s') q" by (rule count_list_pos [OF q])
    show "case files s' q of None \<Rightarrow> False
          | Some fo \<Rightarrow> dupCount fo + 1 =
              int (count_list (fdTable s') q) + (if q = x then 1 else 0)"
    proof (cases "q = ?p")
      case True
      with go fo have "go = fo" by simp
      with c' pos gcnt True have "dupCount fo \<noteq> 0" by (auto split: if_splits)
      with True fls c' cnt show ?thesis by simp
    next
      case False
      with fls go c' gcnt show ?thesis by auto
    qed
  qed
qed

lemma close_total: "fd_inv s \<Longrightarrow> \<exists>s'. close s fd = Inr s'"
  using close_total_credit [of s NULL fd] by (simp add: fd_inv_credit)

lemma fd_inv_close: "fd_inv s \<Longrightarrow> close s fd = Inr s' \<Longrightarrow> fd_inv s'"
  using credit_inv_close [of s NULL fd s'] by (simp add: fd_inv_credit)


lemma close_table:
  assumes cl: "close s fd = Inr s'"
  shows "fdTable s' = (if 1 < fd \<and> 2 < process_get_file s fd
                       then (fdTable s)[nat fd := NULL] else fdTable s)"
proof (cases "process_get_file s fd = NULL \<or> fd \<le> 1 \<or> process_get_file s fd \<le> 2")
  case True
  from close_frame [OF True cl] True show ?thesis by auto
next
  case False
  then have big: "2 < process_get_file s fd" and fd2: "1 < fd" by auto
  show ?thesis
  proof (cases "files s (process_get_file s fd)")
    case None
    from close_dangling [OF big fd2 None] cl show ?thesis by simp
  next
    case (Some fo)
    from close_handle_effect(1) [OF big fd2 Some cl] big fd2 show ?thesis by simp
  qed
qed

lemma dup2_count_table: "dup2_count s p = Inr s1 \<Longrightarrow> fdTable s1 = fdTable s \<and> events s1 = events s"
  by (auto simp: dup2_count_def split: if_splits option.splits)

lemma dup2_count_credit:
  assumes inv: "fd_inv s" and mem: "p \<in> set (fdTable s)" and nn: "p \<noteq> NULL"
  shows "\<exists>s1. dup2_count s p = Inr s1 \<and> credit_inv s1 p"
proof (cases "2 < p")
  case False
  with nn have "p = STDIN \<or> p = STDOUT" by auto
  then obtain s1 where s1: "dup2_count s p = Inr s1" "fdTable s1 = fdTable s" "files s1 = files s"
    by (auto simp: dup2_count_def)
  have "credit_inv s p = credit_inv s NULL"
    using False by (auto simp: credit_inv_def split: option.splits)
  with inv s1 credit_inv_cong [of s1 s p] show ?thesis by (auto simp: fd_inv_credit)
next
  case True
  from fd_inv_live [OF inv mem True] obtain fo
    where fo: "files s p = Some fo" and cnt: "dupCount fo + 1 = int (count_list (fdTable s) p)"
    by blast
  let ?s1 = "s\<lparr>files := (files s)(p \<mapsto> fo\<lparr>dupCount := dupCount fo + 1\<rparr>)\<rparr>"
  have eq: "dup2_count s p = Inr ?s1" using True fo by (simp add: dup2_count_def)
  have "credit_inv ?s1 p"
    unfolding credit_inv_def
  proof (intro ballI impI)
    fix q assume "q \<in> set (fdTable ?s1)" and qb: "2 < q"
    then have qs: "q \<in> set (fdTable s)" by simp
    from fd_inv_live [OF inv qs qb] obtain go
      where "files s q = Some go" "dupCount go + 1 = int (count_list (fdTable s) q)" by blast
    with fo cnt show "case files ?s1 q of None \<Rightarrow> False
          | Some fo \<Rightarrow> dupCount fo + 1 =
              int (count_list (fdTable ?s1) q) + (if q = p then 1 else 0)"
      by auto
  qed
  with eq show ?thesis by blast
qed

lemma credit_store:
  assumes inv: "credit_inv s p" and i: "i < length (fdTable s)" and low: "fdTable s ! i \<le> 2"
    and mem: "p \<in> set (fdTable s)"
  shows "fd_inv (s\<lparr>fdTable := (fdTable s)[i := p]\<rparr>)"
  unfolding fd_inv_def alias_ok_def
proof (intro ballI impI)
  let ?s' = "s\<lparr>fdTable := (fdTable s)[i := p]\<rparr>"
  fix q assume q: "q \<in> set (fdTable ?s')" and qb: "2 < q"
  from q mem have qs: "q \<in> set (fdTable s)"
    using set_update_subset_insert [of "fdTable s" i p] by auto
  from credit_inv_live [OF inv qs qb] obtain go
    where go: "files s q = Some go"
      and gcnt: "dupCount go + 1 = int (count_list (fdTable s) q) + (if q = p then 1 else 0)"
    by blast
  have "int (count_list (fdTable ?s') q) = int (count_list (fdTable s) q) + (if p = q then 1 else 0)"
    using count_list_update [OF i, of p q] low qb by auto
  with go gcnt show "case files ?s' q of None \<Rightarrow> False
        | Some fo \<Rightarrow> dupCount fo + 1 = int (count_list (fdTable ?s') q)"
    by auto
qed

lemma dup2_step:
  "process_get_file s oldfd = p \<Longrightarrow> p \<noteq> NULL \<Longrightarrow> oldfd \<noteq> newfd \<Longrightarrow>
   dup2_count s p = Inr s1 \<Longrightarrow> close s1 newfd = Inr s2 \<Longrightarrow>
   dup2 s oldfd newfd =
     (if 0 \<le> newfd \<and> newfd < int (length (fdTable s2))
      then Inr (newfd, s2\<lparr>fdTable := (fdTable s2)[nat newfd := p]\<rparr>)
      else Inl (OutOfBounds newfd))"
  by (simp add: dup2_def fdt_store_def)

lemma dup2_trivial:
  "process_get_file s oldfd = NULL \<Longrightarrow> dup2 s oldfd newfd = Inr (- 1, s)"
  "process_get_file s oldfd \<noteq> NULL \<Longrightarrow> dup2 s oldfd oldfd = Inr (oldfd, s)"
  by (simp_all add: dup2_def)

lemma dup2_Inr_parts:
  assumes d: "dup2 s oldfd newfd = Inr (r, s')"
    and nn: "process_get_file s oldfd \<noteq> NULL" and ne: "oldfd \<noteq> newfd"
  shows "\<exists>s1 s2. dup2_count s (process_get_file s oldfd) = Inr s1 \<and> close s1 newfd = Inr s2 \<and>
           0 \<le> newfd \<and> newfd < int (length (fdTable s2)) \<and> r = newfd \<and>
           s' = s2\<lparr>fdTable := (fdTable s2)[nat newfd := process_get_file s oldfd]\<rparr>"
proof -
  let ?p = "process_get_file s oldfd"
  from d nn ne obtain s1 where s1: "dup2_count s ?p = Inr s1"
    by (cases "dup2_count s ?p") (auto simp: dup2_def)
  from d nn ne s1 obtain s2 where s2: "close s1 newfd = Inr s2"
    by (cases "close s1 newfd") (auto simp: dup2_def)
  from dup2_step [OF refl nn ne s1 s2] d s1 s2 show ?thesis
    by (auto split: if_splits)
qed


lemma get_file_cong:
  "fdTable s' = fdTable s \<Longrightarrow> process_get_file s' fd = process_get_file s fd"
  by (simp add: process_get_file_def FDCOUNT_LIMIT_def)

lemma get_file_update:
  "fdTable s' = (fdTable s)[i := v] \<Longrightarrow>
   process_get_file s' fd =
     (if 0 \<le> fd \<and> nat fd = i \<and> i < length (fdTable s) then v else process_get_file s fd)"
  by (auto simp: process_get_file_def FDCOUNT_LIMIT_def)

lemma fd_inv_dup2:
  assumes inv: "fd_inv s" and d: "dup2 s oldfd newfd = Inr (r, s')"
    and tgt: "2 \<le> newfd \<or> process_get_file s newfd \<le> 2"
  shows "fd_inv s'"
proof (cases "process_get_file s oldfd = NULL \<or> oldfd = newfd")
  case True
  with d have "s' = s"
    using dup2_trivial(1) [of s oldfd newfd] dup2_trivial(2) [of s oldfd]
    by (cases "process_get_file s oldfd = NULL") auto
  with inv show ?thesis by simp
next
  case False
  let ?p = "process_get_file s oldfd"
  from False have nn: "?p \<noteq> NULL" and ne: "oldfd \<noteq> newfd" by auto
  from dup2_Inr_parts [OF d nn ne] obtain s1 s2
    where s1: "dup2_count s ?p = Inr s1" and s2: "close s1 newfd = Inr s2"
      and rng: "0 \<le> newfd" "newfd < int (length (fdTable s2))"
      and s': "s' = s2\<lparr>fdTable := (fdTable s2)[nat newfd := ?p]\<rparr>"
    by blast
  have mem: "?p \<in> set (fdTable s)" by (rule get_file_mem [OF nn])
  from dup2_count_credit [OF inv mem nn] s1 have c1: "credit_inv s1 ?p" by simp
  from credit_inv_close [OF c1 s2] have c2: "credit_inv s2 ?p" .
  from dup2_count_table [OF s1] have t1: "fdTable s1 = fdTable s" by simp
  note t2 = close_table [OF s2]
  have g1: "process_get_file s1 newfd = process_get_file s newfd"
    by (rule get_file_cong [OF t1])
  have len: "length (fdTable s2) = length (fdTable s)" using t1 t2 by simp
  from get_file_nonnull [OF nn] have old: "0 \<le> oldfd" "nat oldfd < length (fdTable s)"
    "fdTable s ! nat oldfd = ?p" by auto
  have neq: "nat oldfd \<noteq> nat newfd" using ne old(1) rng(1) by auto
  have "fdTable s2 ! nat oldfd = ?p" using t1 t2 old neq by auto
  with old(2) len have mem2: "?p \<in> set (fdTable s2)" by (metis nth_mem)
  have i: "nat newfd < length (fdTable s2)" using rng by auto
  have at_new: "process_get_file s newfd = fdTable s ! nat newfd"
    using rng len by (auto simp: process_get_file_def FDCOUNT_LIMIT_def)
  have low: "fdTable s2 ! nat newfd \<le> 2"
  proof (cases "1 < newfd \<and> 2 < process_get_file s1 newfd")
    case True
    with t2 i len t1 show ?thesis by simp
  next
    case False
    with t2 t1 have "fdTable s2 = fdTable s" by simp
    with False g1 tgt at_new show ?thesis by auto
  qed
  from credit_store [OF c2 i low mem2] s' show ?thesis by simp
qed

lemma dup2_alias:
  assumes d: "dup2 s a b = Inr (r, s')" and ne: "a \<noteq> b"
    and nn: "process_get_file s a \<noteq> NULL"
  shows "r = b \<and> process_get_file s' b = process_get_file s a \<and>
         process_get_file s' a = process_get_file s a"
proof -
  let ?p = "process_get_file s a"
  from dup2_Inr_parts [OF d nn ne] obtain s1 s2
    where s1: "dup2_count s ?p = Inr s1" and s2: "close s1 b = Inr s2"
      and rng: "0 \<le> b" "b < int (length (fdTable s2))" and r: "r = b"
      and s': "s' = s2\<lparr>fdTable := (fdTable s2)[nat b := ?p]\<rparr>"
    by blast
  from dup2_count_table [OF s1] have t1: "fdTable s1 = fdTable s" by simp
  note t2 = close_table [OF s2]
  from get_file_nonnull [OF nn] have old: "0 \<le> a" "nat a < length (fdTable s)"
    "fdTable s ! nat a = ?p" by auto
  have neq: "nat a \<noteq> nat b" using ne old(1) rng(1) by auto
  have len: "length (fdTable s2) = length (fdTable s)" using t1 t2 by simp
  have a2: "fdTable s2 ! nat a = ?p" using t1 t2 old neq by auto
  have "process_get_file s' b = ?p"
    unfolding s' using rng by (auto simp: process_get_file_def FDCOUNT_LIMIT_def)
  moreover have "process_get_file s' a = ?p"
    unfolding s' using old len a2 neq by (auto simp: process_get_file_def FDCOUNT_LIMIT_def)
  ultimately show ?thesis using r by blast
qed


lemma dup2_live:
  assumes inv: "fd_inv s" and d: "dup2 s a b = Inr (r, s')" and ne: "a \<noteq> b"
    and big: "2 < process_get_file s a"
  shows "\<exists>fo. files s' (process_get_file s a) = Some fo \<and> 1 \<le> dupCount fo"
proof -
  let ?p = "process_get_file s a"
  from big have nn: "?p \<noteq> NULL" by simp
  from dup2_Inr_parts [OF d nn ne] obtain s1 s2
    where s1: "dup2_count s ?p = Inr s1" and s2: "close s1 b = Inr s2"
      and rng: "0 \<le> b" "b < int (length (fdTable s2))"
      and s': "s' = s2\<lparr>fdTable := (fdTable s2)[nat b := ?p]\<rparr>"
    by blast
  have mem: "?p \<in> set (fdTable s)" by (rule get_file_mem [OF nn])
  from dup2_count_credit [OF inv mem nn] s1 have c1: "credit_inv s1 ?p" by simp
  from credit_inv_close [OF c1 s2] have c2: "credit_inv s2 ?p" .
  from dup2_count_table [OF s1] have t1: "fdTable s1 = fdTable s" by simp
  note t2 = close_table [OF s2]
  from get_file_nonnull [OF nn] have old: "0 \<le> a" "nat a < length (fdTable s)"
    "fdTable s ! nat a = ?p" by auto
  have neq: "nat a \<noteq> nat b" using ne old(1) rng(1) by auto
  have len: "length (fdTable s2) = length (fdTable s)" using t1 t2 by simp
  have "fdTable s2 ! nat a = ?p" using t1 t2 old neq by auto
  with old(2) len have mem2: "?p \<in> set (fdTable s2)" by (metis nth_mem)
  from credit_inv_live [OF c2 mem2 big] obtain fo
    where fo: "files s2 ?p = Some fo"
      and cnt: "dupCount fo + 1 = int (count_list (fdTable s2) ?p) + 1" by auto
  from count_list_pos [OF mem2] cnt have "1 \<le> dupCount fo" by simp
  with fo show ?thesis unfolding s' by simp
qed

lemma dup2_then_close:
  assumes inv: "fd_inv s" and d: "dup2 s a b = Inr (r, s1)" and ne: "a \<noteq> b"
    and nn: "process_get_file s a \<noteq> NULL" and cl: "close s1 b = Inr s2"
  shows "process_get_file s2 a = process_get_file s a \<and> events s2 = events s1 \<and>
         (2 < process_get_file s a \<longrightarrow> files s2 (process_get_file s a) \<noteq> None)"
proof -
  let ?p = "process_get_file s a"
  from dup2_alias [OF d ne nn]
  have gb: "process_get_file s1 b = ?p" and ga: "process_get_file s1 a = ?p" by auto
  show ?thesis
  proof (cases "b \<le> 1 \<or> ?p \<le> 2")
    case True
    with gb have "process_get_file s1 b = NULL \<or> b \<le> 1 \<or> process_get_file s1 b \<le> 2" by simp
    from close_frame [OF this cl]
    have fr: "fdTable s2 = fdTable s1" "files s2 = files s1" "events s2 = events s1" by auto
    from get_file_cong [OF fr(1)] ga have "process_get_file s2 a = ?p" by simp
    moreover have "2 < ?p \<longrightarrow> files s2 ?p \<noteq> None"
      using dup2_live [OF inv d ne] fr(2) by auto
    ultimately show ?thesis using fr(3) by simp
  next
    case False
    then have big: "2 < ?p" and b2: "1 < b" by auto
    from dup2_live [OF inv d ne big] obtain fo
      where fo: "files s1 ?p = Some fo" and dc: "1 \<le> dupCount fo" by blast
    from big gb have big1: "2 < process_get_file s1 b" by simp
    from fo gb have fo1: "files s1 (process_get_file s1 b) = Some fo" by simp
    note eff = close_handle_effect [OF big1 b2 fo1 cl]
    from get_file_nonnull [of s1 a] ga nn
    have a1: "0 \<le> a" "nat a < length (fdTable s1)" "fdTable s1 ! nat a = ?p" by auto
    from get_file_nonnull [of s1 b] gb nn have b1: "0 \<le> b" by auto
    have neq: "nat a \<noteq> nat b" using ne a1(1) b1 by auto
    have "process_get_file s2 a = ?p"
      using eff(1) a1 neq by (auto simp: process_get_file_def FDCOUNT_LIMIT_def)
    moreover have "events s2 = events s1" using eff(3) dc by simp
    moreover have "files s2 ?p \<noteq> None" using eff(2) dc gb by simp
    ultimately show ?thesis by simp
  qed
qed

lemma close_events:
  assumes inv: "fd_inv s" and cl: "close s fd = Inr s'"
  shows "events s' = events s @
           (if 1 < fd \<and> 2 < process_get_file s fd \<and>
               count_list (fdTable s) (process_get_file s fd) = 1
            then [FileClose (process_get_file s fd)] else [])"
proof (cases "process_get_file s fd = NULL \<or> fd \<le> 1 \<or> process_get_file s fd \<le> 2")
  case True
  from close_frame [OF True cl] True show ?thesis by auto
next
  case False
  let ?p = "process_get_file s fd"
  from False have big: "2 < ?p" and fd2: "1 < fd" by auto
  have mem: "?p \<in> set (fdTable s)" using get_file_mem [of s fd] big by simp
  from fd_inv_live [OF inv mem big] obtain fo
    where fo: "files s ?p = Some fo" and cnt: "dupCount fo + 1 = int (count_list (fdTable s) ?p)"
    by blast
  from cnt have "dupCount fo = 0 \<longleftrightarrow> count_list (fdTable s) ?p = 1" by auto
  with close_handle_effect(3) [OF big fd2 fo cl] big fd2 show ?thesis by simp
qed

lemma close_released_gone:
  assumes inv: "fd_inv s" and cl: "close s fd = Inr s'"
    and rel: "1 < fd" "2 < process_get_file s fd"
      "count_list (fdTable s) (process_get_file s fd) = 1"
  shows "process_get_file s fd \<notin> set (fdTable s') \<and> files s' (process_get_file s fd) = None"
proof -
  let ?p = "process_get_file s fd"
  have mem: "?p \<in> set (fdTable s)" using get_file_mem [of s fd] rel(2) by simp
  from fd_inv_live [OF inv mem rel(2)] obtain fo
    where fo: "files s ?p = Some fo" and cnt: "dupCount fo + 1 = int (count_list (fdTable s) ?p)"
    by blast
  from cnt rel(3) have z: "dupCount fo = 0" by simp
  note eff = close_handle_effect [OF rel(2) rel(1) fo cl]
  from get_file_nonnull [of s fd] rel(2)
  have rng: "nat fd < length (fdTable s)" and at: "fdTable s ! nat fd = ?p" by auto
  have "int (count_list (fdTable s') ?p) = 0"
    using count_list_update [OF rng, of NULL ?p] at rel(2) rel(3) eff(1) by simp
  then have "?p \<notin> set (fdTable s')" by (simp add: count_list_0_iff)
  moreover have "files s' ?p = None" using eff(2) z by simp
  ultimately show ?thesis by simp
qed


declare scan_fdIdx.simps [simp del]

lemma scan_ge: "i \<le> scan_fdIdx fdt i"
proof (induction fdt i rule: scan_fdIdx.induct)
  case (1 fdt i)
  show ?case
  proof (cases "i < length fdt \<and> fdt ! i \<noteq> NULL")
    case True
    with "1.IH" have "Suc i \<le> scan_fdIdx fdt (Suc i)" by simp
    with True show ?thesis by (subst scan_fdIdx.simps) simp
  next
    case False
    then show ?thesis by (subst scan_fdIdx.simps) auto
  qed
qed

lemma scan_stop: "scan_fdIdx fdt i < length fdt \<Longrightarrow> fdt ! scan_fdIdx fdt i = NULL"
proof (induction fdt i rule: scan_fdIdx.induct)
  case (1 fdt i)
  show ?case
  proof (cases "i < length fdt \<and> fdt ! i \<noteq> NULL")
    case True
    then have eq: "scan_fdIdx fdt i = scan_fdIdx fdt (Suc i)"
      by (subst scan_fdIdx.simps) simp
    with "1.IH" [OF True] "1.prems" show ?thesis by simp
  next
    case False
    then have eq: "scan_fdIdx fdt i = i" by (subst scan_fdIdx.simps) auto
    with False "1.prems" show ?thesis by auto
  qed
qed

lemma scan_skipped:
  "i \<le> j \<Longrightarrow> j < scan_fdIdx fdt i \<Longrightarrow> j < length fdt \<and> fdt ! j \<noteq> NULL"
proof (induction fdt i rule: scan_fdIdx.induct)
  case (1 fdt i)
  show ?case
  proof (cases "i < length fdt \<and> fdt ! i \<noteq> NULL")
    case True
    then have eq: "scan_fdIdx fdt i = scan_fdIdx fdt (Suc i)"
      by (subst scan_fdIdx.simps) simp
    show ?thesis
    proof (cases "j = i")
      case True
      with \<open>i < length fdt \<and> fdt ! i \<noteq> NULL\<close> show ?thesis by simp
    next
      case False
      with "1.prems" eq have "Suc i \<le> j" "j < scan_fdIdx fdt (Suc i)" by auto
      from "1.IH" [OF True this] show ?thesis .
    qed
  next
    case False
    then have "scan_fdIdx fdt i = i" by (subst scan_fdIdx.simps) auto
    with "1.prems" show ?thesis by simp
  qed
qed

lemma scan_first:
  "i \<le> k \<Longrightarrow> k < length fdt \<Longrightarrow> fdt ! k = NULL \<Longrightarrow> scan_fdIdx fdt i \<le> k"
  using scan_skipped [of i k fdt] by (meson not_le_imp_less)

lemma scan_bound: "scan_fdIdx fdt i \<le> max i (length fdt)"
proof (induction fdt i rule: scan_fdIdx.induct)
  case (1 fdt i)
  show ?case
  proof (cases "i < length fdt \<and> fdt ! i \<noteq> NULL")
    case True
    then have "scan_fdIdx fdt i = scan_fdIdx fdt (Suc i)" by (subst scan_fdIdx.simps) simp
    with "1.IH" [OF True] True show ?thesis by auto
  next
    case False
    then have "scan_fdIdx fdt i = i" by (subst scan_fdIdx.simps) auto
    then show ?thesis by simp
  qed
qed

lemma add_found:
  assumes "scan_fdIdx (fdTable s) (fdIdx s) < length (fdTable s)"
  shows "process_add_file s f =
           (int (scan_fdIdx (fdTable s) (fdIdx s)),
            s\<lparr>fdIdx := scan_fdIdx (fdTable s) (fdIdx s),
              fdTable := (fdTable s)[scan_fdIdx (fdTable s) (fdIdx s) := f]\<rparr>)"
  using assms by (simp add: process_add_file_def Let_def FDCOUNT_LIMIT_def)

lemma add_full:
  assumes "\<not> scan_fdIdx (fdTable s) (fdIdx s) < length (fdTable s)"
  shows "process_add_file s f = (- 1, s\<lparr>fdIdx := scan_fdIdx (fdTable s) (fdIdx s)\<rparr>)"
  using assms by (simp add: process_add_file_def Let_def FDCOUNT_LIMIT_def)

lemma fd_inv_add:
  assumes inv: "fd_inv s" and big: "2 < p" and fresh: "p \<notin> set (fdTable s)"
    and fo: "files s p = Some fo" and z: "dupCount fo = 0"
  shows "fd_inv (snd (process_add_file s p))"
proof (cases "scan_fdIdx (fdTable s) (fdIdx s) < length (fdTable s)")
  case False
  from add_full [OF False, of p] inv
    fd_inv_cong [of "s\<lparr>fdIdx := scan_fdIdx (fdTable s) (fdIdx s)\<rparr>" s]
  show ?thesis by simp
next
  case True
  let ?k = "scan_fdIdx (fdTable s) (fdIdx s)"
  let ?s' = "s\<lparr>fdIdx := ?k, fdTable := (fdTable s)[?k := p]\<rparr>"
  from scan_stop [OF True] have empty: "fdTable s ! ?k = NULL" .
  have "fd_inv ?s'"
    unfolding fd_inv_def alias_ok_def
  proof (intro ballI impI)
    fix q assume q: "q \<in> set (fdTable ?s')" and qb: "2 < q"
    have c: "int (count_list (fdTable ?s') q) =
             int (count_list (fdTable s) q) + (if p = q then 1 else 0)"
      using count_list_update [OF True, of p q] empty qb by auto
    show "case files ?s' q of None \<Rightarrow> False
          | Some fo \<Rightarrow> dupCount fo + 1 = int (count_list (fdTable ?s') q)"
    proof (cases "q = p")
      case True
      with c fresh fo z show ?thesis by simp
    next
      case False
      with q have qs: "q \<in> set (fdTable s)"
        using set_update_subset_insert [of "fdTable s" ?k p] by auto
      from fd_inv_live [OF inv qs qb] c False show ?thesis by auto
    qed
  qed
  with add_found [OF True, of p] show ?thesis by simp
qed

lemma add_frame:
  "files (snd (process_add_file s f)) = files s \<and> events (snd (process_add_file s f)) = events s"
  by (simp add: process_add_file_def Let_def)

lemma add_full_table:
  "fst (process_add_file s f) = - 1 \<Longrightarrow> fdTable (snd (process_add_file s f)) = fdTable s"
  by (auto simp: process_add_file_def Let_def split: if_splits)

lemma fd_inv_open:
  assumes inv: "fd_inv s" and op: "sys_open s path p = Inr (fd, s')"
    and new: "p = NULL \<or> (2 < p \<and> files s p = None)"
  shows "fd_inv s'"
proof (cases "p = NULL")
  case True
  with op have "s' = s"
    by (auto simp: sys_open_def filesys_open_def split: sum.splits)
  with inv show ?thesis by blast
next
  case False
  with new have big: "2 < p" and none: "files s p = None" by auto
  let ?s1 = "s\<lparr>files := (files s)(p \<mapsto> \<lparr>dupCount = 0\<rparr>)\<rparr>"
  have fresh: "p \<notin> set (fdTable s)" using fd_inv_live [OF inv _ big] none by auto
  have inv1: "fd_inv ?s1"
    unfolding fd_inv_def alias_ok_def
  proof (intro ballI impI)
    fix q assume "q \<in> set (fdTable ?s1)" and qb: "2 < q"
    then have qs: "q \<in> set (fdTable s)" by simp
    with fresh have "q \<noteq> p" by auto
    with fd_inv_live [OF inv qs qb]
    show "case files ?s1 q of None \<Rightarrow> False
          | Some fo \<Rightarrow> dupCount fo + 1 = int (count_list (fdTable ?s1) q)" by auto
  qed
  have inv2: "fd_inv (snd (process_add_file ?s1 p))"
    by (rule fd_inv_add [OF inv1 big]) (use fresh in auto)
  obtain r s2 where a: "process_add_file ?s1 p = (r, s2)" by (cases "process_add_file ?s1 p")
  from op False a have res: "fd = r" "s' = (if r = - 1 then file_close s2 p else s2)"
    by (auto simp: sys_open_def filesys_open_def split: sum.splits if_splits)
  show ?thesis
  proof (cases "r = - 1")
    case False
    with res inv2 a show ?thesis by simp
  next
    case True
    with add_full_table [of ?s1 p] a have t2: "fdTable s2 = fdTable s" by simp
    from add_frame [of ?s1 p] a have f2: "files s2 = (files s)(p \<mapsto> \<lparr>dupCount = 0\<rparr>)" by simp
    from res True have "fdTable s' = fdTable s" "files s' = files s"
      using t2 f2 none by (auto simp: file_close_def)
    with inv fd_inv_cong [of s' s] show ?thesis by blast
  qed
qed

subsection \<open>The invariant of the reachable states\<close>

lemma fd_live_credit: "fd_live s = credit_live s NULL"
  by (auto simp: fd_live_def credit_live_def split: option.splits)

lemma fd_inv_imp_live: "fd_inv s \<Longrightarrow> fd_live s"
  by (auto simp: fd_inv_def alias_ok_def fd_live_def split: option.splits)

lemma credit_live_D:
  "credit_live s x \<Longrightarrow> q \<in> set (fdTable s) \<Longrightarrow> 2 < q \<Longrightarrow>
   \<exists>fo. files s q = Some fo \<and>
        int (count_list (fdTable s) q) + (if q = x then 1 else 0) \<le> dupCount fo + 1"
  by (auto simp: credit_live_def split: option.splits)

lemma fd_live_D:
  "fd_live s \<Longrightarrow> q \<in> set (fdTable s) \<Longrightarrow> 2 < q \<Longrightarrow>
   \<exists>fo. files s q = Some fo \<and> int (count_list (fdTable s) q) \<le> dupCount fo + 1"
  by (auto simp: fd_live_def split: option.splits)

lemma credit_live_cong:
  "fdTable s' = fdTable s \<Longrightarrow> files s' = files s \<Longrightarrow> credit_live s' x = credit_live s x"
  by (simp add: credit_live_def cong: option.case_cong)

lemma close_total_live: "credit_live s x \<Longrightarrow> \<exists>s'. close s fd = Inr s'"
proof (cases "process_get_file s fd = NULL \<or> fd \<le> 1 \<or> process_get_file s fd \<le> 2")
  case True
  then show ?thesis using close_null [of s fd] close_std [of s fd] by blast
next
  case False
  assume inv: "credit_live s x"
  let ?p = "process_get_file s fd"
  from False have "?p \<in> set (fdTable s)" "2 < ?p"
    using get_file_mem [of s fd] by auto
  from credit_live_D [OF inv this] obtain fo where "files s ?p = Some fo" by blast
  with False show ?thesis using close_handle [of s fd fo] by simp
qed

lemma credit_live_close:
  assumes inv: "credit_live s x" and cl: "close s fd = Inr s'"
  shows "credit_live s' x"
proof (cases "process_get_file s fd = NULL \<or> fd \<le> 1 \<or> process_get_file s fd \<le> 2")
  case True
  from close_frame [OF True cl] inv credit_live_cong [of s' s x] show ?thesis by blast
next
  case False
  let ?p = "process_get_file s fd"
  from False have nn: "?p \<noteq> NULL" and big: "2 < ?p" and fd2: "1 < fd" by auto
  from get_file_nonnull [OF nn]
  have rng: "0 \<le> fd" "nat fd < length (fdTable s)" and at: "fdTable s ! nat fd = ?p" by auto
  have mem: "?p \<in> set (fdTable s)" by (rule get_file_mem [OF nn])
  from credit_live_D [OF inv mem big] obtain fo
    where fo: "files s ?p = Some fo"
      and cnt: "int (count_list (fdTable s) ?p) + (if ?p = x then 1 else 0) \<le> dupCount fo + 1"
    by blast
  note tbl = close_handle_effect(1) [OF big fd2 fo cl]
  note fls = close_handle_effect(2) [OF big fd2 fo cl]
  show ?thesis
    unfolding credit_live_def
  proof (intro ballI impI)
    fix q assume q: "q \<in> set (fdTable s')" and qb: "2 < q"
    from q tbl have qs: "q \<in> set (fdTable s)"
      using set_update_subset_insert [of "fdTable s" "nat fd" NULL] qb by auto
    from credit_live_D [OF inv qs qb] obtain go
      where go: "files s q = Some go"
        and gcnt: "int (count_list (fdTable s) q) + (if q = x then 1 else 0) \<le> dupCount go + 1"
      by blast
    have c': "int (count_list (fdTable s') q) =
              int (count_list (fdTable s) q) - (if ?p = q then 1 else 0)"
      using count_list_update [OF rng(2), of NULL q] at qb by (simp add: tbl)
    have pos: "0 < count_list (fdTable s') q" by (rule count_list_pos [OF q])
    show "case files s' q of None \<Rightarrow> False
          | Some fo \<Rightarrow>
              int (count_list (fdTable s') q) + (if q = x then 1 else 0) \<le> dupCount fo + 1"
    proof (cases "q = ?p")
      case True
      with go fo have "go = fo" by simp
      with c' pos gcnt True have "dupCount fo \<noteq> 0" by (auto split: if_splits)
      with True fls c' cnt show ?thesis by (simp split: if_splits)
    next
      case False
      with fls go c' gcnt show ?thesis by auto
    qed
  qed
qed

lemma fd_live_close: "fd_live s \<Longrightarrow> close s fd = Inr s' \<Longrightarrow> fd_live s'"
  using credit_live_close [of s NULL fd s'] by (simp add: fd_live_credit)

lemma dup2_count_live:
  assumes inv: "fd_live s" and mem: "p \<in> set (fdTable s)" and nn: "p \<noteq> NULL"
  shows "\<exists>s1. dup2_count s p = Inr s1 \<and> credit_live s1 p"
proof (cases "2 < p")
  case False
  with nn have "p = STDIN \<or> p = STDOUT" by auto
  then obtain s1 where s1: "dup2_count s p = Inr s1" "fdTable s1 = fdTable s" "files s1 = files s"
    by (auto simp: dup2_count_def)
  have "credit_live s p = credit_live s NULL"
    using False by (auto simp: credit_live_def split: option.splits)
  with inv s1 credit_live_cong [of s1 s p] show ?thesis by (auto simp: fd_live_credit)
next
  case True
  from fd_live_D [OF inv mem True] obtain fo
    where fo: "files s p = Some fo" and cnt: "int (count_list (fdTable s) p) \<le> dupCount fo + 1"
    by blast
  let ?s1 = "s\<lparr>files := (files s)(p \<mapsto> fo\<lparr>dupCount := dupCount fo + 1\<rparr>)\<rparr>"
  have eq: "dup2_count s p = Inr ?s1" using True fo by (simp add: dup2_count_def)
  have "credit_live ?s1 p"
    unfolding credit_live_def
  proof (intro ballI impI)
    fix q assume "q \<in> set (fdTable ?s1)" and qb: "2 < q"
    then have qs: "q \<in> set (fdTable s)" by simp
    from fd_live_D [OF inv qs qb] obtain go
      where "files s q = Some go" "int (count_list (fdTable s) q) \<le> dupCount go + 1" by blast
    with fo cnt show "case files ?s1 q of None \<Rightarrow> False
          | Some fo \<Rightarrow>
              int (count_list (fdTable ?s1) q) + (if q = p then 1 else 0) \<le> dupCount fo + 1"
      by auto
  qed
  with eq show ?thesis by blast
qed

lemma live_store:
  assumes inv: "credit_live s p" and i: "i < length (fdTable s)" and mem: "p \<in> set (fdTable s)"
  shows "fd_live (s\<lparr>fdTable := (fdTable s)[i := p]\<rparr>)"
  unfolding fd_live_def
proof (intro ballI impI)
  let ?s' = "s\<lparr>fdTable := (fdTable s)[i := p]\<rparr>"
  fix q assume q: "q \<in> set (fdTable ?s')" and qb: "2 < q"
  from q mem have qs: "q \<in> set (fdTable s)"
    using set_update_subset_insert [of "fdTable s" i p] by auto
  from credit_live_D [OF inv qs qb] obtain go
    where go: "files s q = Some go"
      and gcnt: "int (count_list (fdTable s) q) + (if q = p then 1 else 0) \<le> dupCount go + 1"
    by blast
  have "int (count_list (fdTable ?s') q) \<le> int (count_list (fdTable s) q) + (if p = q then 1 else 0)"
    using count_list_update [OF i, of p q] by auto
  with go gcnt show "case files ?s' q of None \<Rightarrow> False
        | Some fo \<Rightarrow> int (count_list (fdTable ?s') q) \<le> dupCount fo + 1"
    by (auto split: if_splits)
qed


lemma dup2_in_range:
  assumes inv: "fd_live s" and nn: "process_get_file s a \<noteq> NULL" and ne: "a \<noteq> b"
    and rng: "0 \<le> b" "b < FDCOUNT_LIMIT s"
  shows "\<exists>s2. dup2 s a b = Inr (b, s2\<lparr>fdTable := (fdTable s2)[nat b := process_get_file s a]\<rparr>) \<and>
              credit_live s2 (process_get_file s a) \<and>
              length (fdTable s2) = length (fdTable s) \<and>
              fdTable s2 ! nat a = process_get_file s a \<and>
              nat a < length (fdTable s) \<and> nat a \<noteq> nat b"
proof -
  let ?p = "process_get_file s a"
  have mem: "?p \<in> set (fdTable s)" by (rule get_file_mem [OF nn])
  from dup2_count_live [OF inv mem nn] obtain s1
    where s1: "dup2_count s ?p = Inr s1" and c1: "credit_live s1 ?p" by blast
  from close_total_live [OF c1] obtain s2 where s2: "close s1 b = Inr s2" by blast
  from credit_live_close [OF c1 s2] have c2: "credit_live s2 ?p" .
  from dup2_count_table [OF s1] have t1: "fdTable s1 = fdTable s" by simp
  note t2 = close_table [OF s2]
  have len: "length (fdTable s2) = length (fdTable s)" using t1 t2 by simp
  from get_file_nonnull [OF nn] have old: "0 \<le> a" "nat a < length (fdTable s)"
    "fdTable s ! nat a = ?p" by auto
  have neq: "nat a \<noteq> nat b" using ne old(1) rng(1) by auto
  have a2: "fdTable s2 ! nat a = ?p" using t1 t2 old neq by auto
  have "0 \<le> b \<and> b < int (length (fdTable s2))" using rng len by (simp add: FDCOUNT_LIMIT_def)
  with dup2_step [OF refl nn ne s1 s2]
  have "dup2 s a b = Inr (b, s2\<lparr>fdTable := (fdTable s2)[nat b := ?p]\<rparr>)" by simp
  with c2 len a2 old(2) neq show ?thesis by blast
qed

lemma dup2_out_of_range:
  assumes inv: "fd_live s" and nn: "process_get_file s a \<noteq> NULL" and ne: "a \<noteq> b"
    and rng: "b < 0 \<or> FDCOUNT_LIMIT s \<le> b"
  shows "dup2 s a b = Inl (OutOfBounds b)"
proof -
  let ?p = "process_get_file s a"
  have mem: "?p \<in> set (fdTable s)" by (rule get_file_mem [OF nn])
  from dup2_count_live [OF inv mem nn] obtain s1
    where s1: "dup2_count s ?p = Inr s1" and c1: "credit_live s1 ?p" by blast
  from close_total_live [OF c1] obtain s2 where s2: "close s1 b = Inr s2" by blast
  from dup2_count_table [OF s1] have t1: "fdTable s1 = fdTable s" by simp
  note t2 = close_table [OF s2]
  have len: "length (fdTable s2) = length (fdTable s)" using t1 t2 by simp
  have "\<not> (0 \<le> b \<and> b < int (length (fdTable s2)))"
    using rng len by (auto simp: FDCOUNT_LIMIT_def)
  with dup2_step [OF refl nn ne s1 s2] show ?thesis by simp
qed

lemma dup2_returns_iff:
  assumes inv: "fd_live s"
  shows "(\<exists>r s2. dup2 s a b = Inr (r, s2)) \<longleftrightarrow>
         \<not> (process_get_file s a \<noteq> NULL \<and> a \<noteq> b \<and> (b < 0 \<or> FDCOUNT_LIMIT s \<le> b))"
proof (cases "process_get_file s a = NULL")
  case True
  with dup2_trivial(1) [of s a b] show ?thesis by simp
next
  case nn: False
  show ?thesis
  proof (cases "a = b")
    case True
    with nn dup2_trivial(2) [of s a] show ?thesis by simp
  next
    case ne: False
    show ?thesis
    proof (cases "b < 0 \<or> FDCOUNT_LIMIT s \<le> b")
      case True
      with dup2_out_of_range [OF inv nn ne] nn ne show ?thesis by simp
    next
      case False
      then have "0 \<le> b" "b < FDCOUNT_LIMIT s" by auto
      from dup2_in_range [OF inv nn ne this] False show ?thesis by auto
    qed
  qed
qed

lemma fd_live_dup2:
  assumes inv: "fd_live s" and d: "dup2 s a b = Inr (r, s')"
  shows "fd_live s'"
proof (cases "process_get_file s a = NULL \<or> a = b")
  case True
  with d have "s' = s"
    using dup2_trivial(1) [of s a b] dup2_trivial(2) [of s a]
    by (cases "process_get_file s a = NULL") auto
  with inv show ?thesis by simp
next
  case False
  let ?p = "process_get_file s a"
  from False have nn: "?p \<noteq> NULL" and ne: "a \<noteq> b" by auto
  have "\<not> (b < 0 \<or> FDCOUNT_LIMIT s \<le> b)"
  proof
    assume "b < 0 \<or> FDCOUNT_LIMIT s \<le> b"
    from dup2_out_of_range [OF inv nn ne this] d show False by simp
  qed
  then have rng: "0 \<le> b" "b < FDCOUNT_LIMIT s" by auto
  from dup2_in_range [OF inv nn ne rng] obtain s2
    where e: "dup2 s a b = Inr (b, s2\<lparr>fdTable := (fdTable s2)[nat b := ?p]\<rparr>)"
      and c2: "credit_live s2 ?p" and len: "length (fdTable s2) = length (fdTable s)"
      and a2: "fdTable s2 ! nat a = ?p" and al: "nat a < length (fdTable s)"
    by blast
  from a2 al len have mem2: "?p \<in> set (fdTable s2)" by (metis nth_mem)
  have i: "nat b < length (fdTable s2)" using rng len by (auto simp: FDCOUNT_LIMIT_def)
  from live_store [OF c2 i mem2] e d show ?thesis by simp
qed

lemma dup2_alias_live:
  assumes inv: "fd_live s" and nn: "process_get_file s a \<noteq> NULL" and ne: "a \<noteq> b"
    and rng: "0 \<le> b" "b < FDCOUNT_LIMIT s"
  shows "\<exists>s2 s3. dup2 s a b = Inr (b, s2) \<and> fd_live s2 \<and>
           process_get_file s2 b = process_get_file s a \<and>
           process_get_file s2 a = process_get_file s a \<and>
           close s2 b = Inr s3 \<and>
           process_get_file s3 a = process_get_file s a \<and> events s3 = events s2 \<and>
           (2 < process_get_file s a \<longrightarrow> files s3 (process_get_file s a) \<noteq> None)"
proof -
  let ?p = "process_get_file s a"
  from dup2_in_range [OF inv nn ne rng] obtain s2'
    where e: "dup2 s a b = Inr (b, s2'\<lparr>fdTable := (fdTable s2')[nat b := ?p]\<rparr>)"
      and c2: "credit_live s2' ?p" and len: "length (fdTable s2') = length (fdTable s)"
      and a2: "fdTable s2' ! nat a = ?p" and al: "nat a < length (fdTable s)"
      and neq: "nat a \<noteq> nat b"
    by blast
  let ?s2 = "s2'\<lparr>fdTable := (fdTable s2')[nat b := ?p]\<rparr>"
  have live2: "fd_live ?s2" by (rule fd_live_dup2 [OF inv e])
  from dup2_alias [OF e ne nn]
  have gb: "process_get_file ?s2 b = ?p" and ga: "process_get_file ?s2 a = ?p" by auto
  from live2 have "credit_live ?s2 NULL" by (simp add: fd_live_credit)
  from close_total_live [OF this] obtain s3 where cl: "close ?s2 b = Inr s3" by blast
  have rest: "process_get_file s3 a = ?p \<and> events s3 = events ?s2 \<and>
              (2 < ?p \<longrightarrow> files s3 ?p \<noteq> None)"
  proof (cases "b \<le> 1 \<or> ?p \<le> 2")
    case True
    with gb have "process_get_file ?s2 b = NULL \<or> b \<le> 1 \<or> process_get_file ?s2 b \<le> 2"
      by simp
    from close_frame [OF this cl]
    have fr: "fdTable s3 = fdTable ?s2" "files s3 = files ?s2" "events s3 = events ?s2" by auto
    from get_file_cong [OF fr(1)] ga have g3: "process_get_file s3 a = ?p" by simp
    have "2 < ?p \<longrightarrow> files s3 ?p \<noteq> None"
    proof
      assume big: "2 < ?p"
      from get_file_mem [of ?s2 b] gb nn have "?p \<in> set (fdTable ?s2)" by simp
      from fd_live_D [OF live2 this big] fr(2) show "files s3 ?p \<noteq> None" by auto
    qed
    with g3 fr(3) show ?thesis by simp
  next
    case False
    then have big: "2 < ?p" and b2: "1 < b" by auto
    have i: "nat b < length (fdTable s2')" using rng len by (auto simp: FDCOUNT_LIMIT_def)
    have ia: "nat a < length (fdTable s2')" using al len by simp
    have atb: "fdTable ?s2 ! nat b = ?p" using i by simp
    have ata: "fdTable ?s2 ! nat a = ?p" using a2 neq by simp
    have lb2: "nat b < length (fdTable ?s2)" using i by simp
    from nth_mem [OF lb2] atb have mem: "?p \<in> set (fdTable ?s2)" by simp
    from fd_live_D [OF live2 mem big] obtain fo
      where fo: "files ?s2 ?p = Some fo"
        and cnt: "int (count_list (fdTable ?s2) ?p) \<le> dupCount fo + 1" by blast
    have two: "2 \<le> count_list (fdTable ?s2) ?p"
    proof -
      let ?T = "fdTable ?s2"
      have la: "nat a < length ?T" and lb: "nat b < length ?T" using i ia by simp_all
      have "int (count_list (?T[nat a := NULL]) ?p) = int (count_list ?T ?p) - 1"
        using count_list_update [OF la, of NULL ?p] ata nn by simp
      moreover have "(?T[nat a := NULL]) ! nat b = ?p" using atb neq lb by simp
      then have "?p \<in> set (?T[nat a := NULL])" using lb by (metis length_list_update nth_mem)
      then have "0 < count_list (?T[nat a := NULL]) ?p" by (rule count_list_pos)
      ultimately show ?thesis by linarith
    qed
    with cnt have dc: "1 \<le> dupCount fo" by linarith
    from big gb have big1: "2 < process_get_file ?s2 b" by simp
    from fo gb have fo1: "files ?s2 (process_get_file ?s2 b) = Some fo" by simp
    note eff = close_handle_effect [OF big1 b2 fo1 cl]
    have g3: "process_get_file s3 a = ?p"
    proof -
      have "fdTable s3 ! nat a = ?p" using eff(1) ata neq by simp
      moreover have "length (fdTable s3) = length (fdTable ?s2)" using eff(1) by simp
      ultimately show ?thesis using ia get_file_nonnull [OF nn]
        by (auto simp: process_get_file_def FDCOUNT_LIMIT_def)
    qed
    moreover have "events s3 = events ?s2" using eff(3) dc by simp
    moreover have "files s3 ?p \<noteq> None" using eff(2) dc gb by simp
    ultimately show ?thesis by simp
  qed
  from e live2 gb ga cl rest show ?thesis by blast
qed


lemma close_release_live:
  assumes inv: "fd_live s" and cl: "close s fd = Inr s'"
  shows "events s' = events s \<or>
         (events s' = events s @ [FileClose (process_get_file s fd)] \<and> 1 < fd \<and>
          2 < process_get_file s fd \<and>
          count_list (fdTable s) (process_get_file s fd) = 1 \<and>
          process_get_file s fd \<notin> set (fdTable s') \<and>
          files s' (process_get_file s fd) = None)"
proof (cases "process_get_file s fd = NULL \<or> fd \<le> 1 \<or> process_get_file s fd \<le> 2")
  case True
  from close_frame [OF True cl] show ?thesis by simp
next
  case False
  let ?p = "process_get_file s fd"
  from False have big: "2 < ?p" and fd2: "1 < fd" by auto
  have mem: "?p \<in> set (fdTable s)" using get_file_mem [of s fd] big by simp
  from fd_live_D [OF inv mem big] obtain fo
    where fo: "files s ?p = Some fo" and cnt: "int (count_list (fdTable s) ?p) \<le> dupCount fo + 1"
    by blast
  note eff = close_handle_effect [OF big fd2 fo cl]
  show ?thesis
  proof (cases "dupCount fo = 0")
    case False
    with eff(3) show ?thesis by simp
  next
    case True
    from count_list_pos [OF mem] cnt True have one: "count_list (fdTable s) ?p = 1" by simp
    from get_file_nonnull [of s fd] big
    have rng: "nat fd < length (fdTable s)" and at: "fdTable s ! nat fd = ?p" by auto
    have "int (count_list (fdTable s') ?p) = 0"
      using count_list_update [OF rng, of NULL ?p] at big one eff(1) by simp
    then have "?p \<notin> set (fdTable s')" by (simp add: count_list_0_iff)
    moreover have "files s' ?p = None" using eff(2) True by simp
    ultimately show ?thesis using eff(3) True one big fd2 by simp
  qed
qed

lemma fd_live_add:
  assumes inv: "fd_live s" and big: "2 < p" and fresh: "p \<notin> set (fdTable s)"
    and fo: "files s p = Some fo" and z: "0 \<le> dupCount fo"
  shows "fd_live (snd (process_add_file s p))"
proof (cases "scan_fdIdx (fdTable s) (fdIdx s) < length (fdTable s)")
  case False
  have "fd_live (s\<lparr>fdIdx := scan_fdIdx (fdTable s) (fdIdx s)\<rparr>) = fd_live s"
    by (simp add: fd_live_def cong: option.case_cong)
  with add_full [OF False, of p] inv show ?thesis by simp
next
  case True
  let ?k = "scan_fdIdx (fdTable s) (fdIdx s)"
  let ?s' = "s\<lparr>fdIdx := ?k, fdTable := (fdTable s)[?k := p]\<rparr>"
  have "fd_live ?s'"
    unfolding fd_live_def
  proof (intro ballI impI)
    fix q assume q: "q \<in> set (fdTable ?s')" and qb: "2 < q"
    have c: "int (count_list (fdTable ?s') q) \<le>
             int (count_list (fdTable s) q) + (if p = q then 1 else 0)"
      using count_list_update [OF True, of p q] by auto
    show "case files ?s' q of None \<Rightarrow> False
          | Some fo \<Rightarrow> int (count_list (fdTable ?s') q) \<le> dupCount fo + 1"
    proof (cases "q = p")
      case True
      with c fresh fo z show ?thesis by simp
    next
      case False
      with q have qs: "q \<in> set (fdTable s)"
        using set_update_subset_insert [of "fdTable s" ?k p] by auto
      from fd_live_D [OF inv qs qb] c False show ?thesis by auto
    qed
  qed
  with add_found [OF True, of p] show ?thesis by simp
qed

lemma fd_live_open:
  assumes inv: "fd_live s" and op: "sys_open s path p = Inr (fd, s')"
    and new: "p = NULL \<or> (2 < p \<and> files s p = None)"
  shows "fd_live s'"
proof (cases "p = NULL")
  case True
  with op have "s' = s"
    by (auto simp: sys_open_def filesys_open_def split: sum.splits)
  with inv show ?thesis by blast
next
  case False
  with new have big: "2 < p" and none: "files s p = None" by auto
  let ?s1 = "s\<lparr>files := (files s)(p \<mapsto> \<lparr>dupCount = 0\<rparr>)\<rparr>"
  have fresh: "p \<notin> set (fdTable s)" using fd_live_D [OF inv _ big] none by auto
  have inv1: "fd_live ?s1"
    unfolding fd_live_def
  proof (intro ballI impI)
    fix q assume "q \<in> set (fdTable ?s1)" and qb: "2 < q"
    then have qs: "q \<in> set (fdTable s)" by simp
    with fresh have "q \<noteq> p" by auto
    with fd_live_D [OF inv qs qb]
    show "case files ?s1 q of None \<Rightarrow> False
          | Some fo \<Rightarrow> int (count_list (fdTable ?s1) q) \<le> dupCount fo + 1" by auto
  qed
  have inv2: "fd_live (snd (process_add_file ?s1 p))"
    by (rule fd_live_add [OF inv1 big]) (use fresh in auto)
  obtain r s2 where a: "process_add_file ?s1 p = (r, s2)" by (cases "process_add_file ?s1 p")
  from op False a have res: "fd = r" "s' = (if r = - 1 then file_close s2 p else s2)"
    by (auto simp: sys_open_def filesys_open_def split: sum.splits if_splits)
  show ?thesis
  proof (cases "r = - 1")
    case False
    with res inv2 a show ?thesis by simp
  next
    case True
    with add_full_table [of ?s1 p] a have t2: "fdTable s2 = fdTable s" by simp
    from add_frame [of ?s1 p] a have f2: "files s2 = (files s)(p \<mapsto> \<lparr>dupCount = 0\<rparr>)" by simp
    from res True have "fdTable s' = fdTable s" "files s' = files s"
      using t2 f2 none by (auto simp: file_close_def)
    then have "fd_live s' = fd_live s" by (simp add: fd_live_def cong: option.case_cong)
    with inv show ?thesis by blast
  qed
qed

subsection \<open>Example states and runs\<close>

text \<open>
  A table of six slots as a process starts with it: the standard streams at descriptors
  0 and 1, every other slot empty, both stream counters 1. User addresses 4096 to 8191
  are mapped and hold the byte 255; the console delivers three letters \<^verbatim>\<open>A\<close>, then a
  zero byte, then letters again.
\<close>

definition demo_state :: kstate where
  "demo_state =
     \<lparr>fdTable = [STDIN, STDOUT, NULL, NULL, NULL, NULL], fdIdx = 2,
      stdin_count = 1, stdout_count = 1, files = (\<lambda>_. None), events = [],
      umem = (\<lambda>_. 255), kern_base = 65536, pml4_mapped = (\<lambda>a. 4096 \<le> a \<and> a < 8192),
      keys = (\<lambda>n. if n = 3 then 0 else 65), keys_taken = 0\<rparr>"

text \<open>The same table with one open file at descriptor 2, and with descriptor 4 its alias.\<close>

definition one_file_state :: kstate where
  "one_file_state =
     demo_state\<lparr>fdTable := [STDIN, STDOUT, 100, NULL, NULL, NULL],
                files := (\<lambda>_. None)(100 \<mapsto> \<lparr>dupCount = 0\<rparr>)\<rparr>"

definition two_alias_state :: kstate where
  "two_alias_state =
     demo_state\<lparr>fdTable := [STDIN, STDOUT, 100, NULL, 100, NULL],
                files := (\<lambda>_. None)(100 \<mapsto> \<lparr>dupCount = 1\<rparr>)\<rparr>"

text \<open>A sequence of system calls on the descriptor table, run until one does not return.\<close>

datatype call = Open addr addr | Close int | Dup2 int int

fun step :: "kstate \<Rightarrow> call \<Rightarrow> fault + kstate" where
  "step s (Open path p) = (case sys_open s path p of Inl e \<Rightarrow> Inl e | Inr (fd, s') \<Rightarrow> Inr s')"
| "step s (Close fd) = close s fd"
| "step s (Dup2 oldfd newfd) =
     (case dup2 s oldfd newfd of Inl e \<Rightarrow> Inl e | Inr (fd, s') \<Rightarrow> Inr s')"

fun run :: "kstate \<Rightarrow> call list \<Rightarrow> fault + kstate" where
  "run s [] = Inr s"
| "run s (c # cs) = (case step s c of Inl e \<Rightarrow> Inl e | Inr s' \<Rightarrow> run s' cs)"

text \<open>
  The calls of a run whose \<^verbatim>\<open>open\<close> gets from the file system either nothing or a handle
  that is not yet a live object, as \<^verbatim>\<open>filesys_open\<close> allocates one.
\<close>

fun fresh_call :: "kstate \<Rightarrow> call \<Rightarrow> bool" where
  "fresh_call s (Open path p) = (p = NULL \<or> (2 < p \<and> files s p = None))"
| "fresh_call s (Close fd) = True"
| "fresh_call s (Dup2 oldfd newfd) = True"

fun fresh_run :: "kstate \<Rightarrow> call list \<Rightarrow> bool" where
  "fresh_run s [] = True"
| "fresh_run s (c # cs) =
     (fresh_call s c \<and> (case step s c of Inl e \<Rightarrow> True | Inr s' \<Rightarrow> fresh_run s' cs))"

text \<open>
  The table after \<^verbatim>\<open>open\<close>, \<^verbatim>\<open>open\<close>, \<^verbatim>\<open>dup2 (2, 0)\<close>, \<^verbatim>\<open>dup2 (3, 0)\<close>: the first handle is
  in one slot and has alias count 1.
\<close>

definition leaked_state :: kstate where
  "leaked_state =
     demo_state\<lparr>fdTable := [200, STDOUT, 100, 200, NULL, NULL], fdIdx := 3,
                stdin_count := - 1,
                files := (\<lambda>_. None)(100 \<mapsto> \<lparr>dupCount = 1\<rparr>, 200 \<mapsto> \<lparr>dupCount = 1\<rparr>)\<rparr>"

lemmas fd_defs = dup2_def process_get_file_def FDCOUNT_LIMIT_def dup2_count_def close_def Let_def
  process_close_file_def fdt_store_def file_close_def sys_open_def filesys_open_def
  process_add_file_def check_address_def is_user_vaddr_def

subsection \<open>The alias count\<close>

lemma fd_live_step:
  assumes inv: "fd_live s" and f: "fresh_call s c" and st: "step s c = Inr s'"
  shows "fd_live s'"
proof (cases c)
  case (Open path p)
  with st obtain fd where "sys_open s path p = Inr (fd, s')"
    by (auto split: sum.splits)
  from fd_live_open [OF inv this] f Open show ?thesis by simp
next
  case (Close fd)
  with st fd_live_close [OF inv] show ?thesis by simp
next
  case (Dup2 a b)
  with st obtain r where "dup2 s a b = Inr (r, s')" by (auto split: sum.splits)
  from fd_live_dup2 [OF inv this] show ?thesis .
qed

lemma fd_live_run:
  "fd_live s \<Longrightarrow> fresh_run s cs \<Longrightarrow> run s cs = Inr s' \<Longrightarrow> fd_live s'"
proof (induction cs arbitrary: s)
  case Nil
  then show ?case by simp
next
  case (Cons c cs)
  from Cons.prems(3) obtain s1 where s1: "step s c = Inr s1" and r: "run s1 cs = Inr s'"
    by (auto split: sum.splits)
  from Cons.prems(2) s1 have f: "fresh_call s c" "fresh_run s1 cs" by auto
  from fd_live_step [OF Cons.prems(1) f(1) s1] have "fd_live s1" .
  from Cons.IH [OF this f(2) r] show ?case .
qed

text \<open>
  Claim C1, as the code has it. A table that holds the standard streams only has exact
  alias counts, \<open>fd_inv\<close>. Every state that is reached from one with exact alias counts
  by \<^verbatim>\<open>open\<close> (of a new handle), \<^verbatim>\<open>close\<close> and \<^verbatim>\<open>dup2\<close> has \<open>fd_live\<close>: each file
  handle of the table is a live object and its \<^verbatim>\<open>dupCount\<close> is at least (number of slots
  that hold it) - 1. In such a state:
  \<^item> \<^verbatim>\<open>open\<close> of a new handle keeps \<open>fd_live\<close>, and keeps the exact count \<open>fd_inv\<close>;
  \<^item> \<^verbatim>\<open>close\<close> always returns and keeps both; it calls \<^verbatim>\<open>file_close\<close> only when the
    descriptor is 2 or more and its slot is the last one that holds the handle, and
    then the handle is in no slot and no longer a live object; with exact counts it
    calls \<^verbatim>\<open>file_close\<close> exactly then;
  \<^item> \<^verbatim>\<open>dup2\<close> returns unless the old descriptor is open, differs from the new one and
    the new one is outside the table; when it returns it keeps \<open>fd_live\<close>, and it keeps
    \<open>fd_inv\<close> when the new descriptor is not one of 0 and 1 holding a file handle;
  \<^item> \<^verbatim>\<open>dup2 (a, b)\<close> with \<open>a \<noteq> b\<close>, \<open>a\<close> open and \<open>b\<close> in the table returns \<open>b\<close>; then both
    descriptors resolve to what \<open>a\<close> resolved to, and closing \<open>b\<close> returns, leaves \<open>a\<close>
    resolving to it, releases nothing and leaves the handle live.
\<close>

theorem fd_alias_count:
  "((\<forall>p \<in> set (fdTable s). p \<le> 2) \<longrightarrow> fd_inv s) \<and>
   (fd_inv s \<longrightarrow> fd_live s) \<and>
   (fd_live s \<longrightarrow>
      ((p = NULL \<or> (2 < p \<and> files s p = None)) \<longrightarrow> sys_open s path p = Inr (fd0, s0) \<longrightarrow>
         fd_live s0 \<and> (fd_inv s \<longrightarrow> fd_inv s0)) \<and>
      (\<exists>s1. close s fd = Inr s1 \<and> fd_live s1 \<and> (fd_inv s \<longrightarrow> fd_inv s1) \<and>
         (events s1 = events s \<or>
          (events s1 = events s @ [FileClose (process_get_file s fd)] \<and> 1 < fd \<and>
           2 < process_get_file s fd \<and>
           count_list (fdTable s) (process_get_file s fd) = 1 \<and>
           process_get_file s fd \<notin> set (fdTable s1) \<and>
           files s1 (process_get_file s fd) = None)) \<and>
         (fd_inv s \<longrightarrow>
            events s1 = events s @
              (if 1 < fd \<and> 2 < process_get_file s fd \<and>
                  count_list (fdTable s) (process_get_file s fd) = 1
               then [FileClose (process_get_file s fd)] else []))) \<and>
      ((\<exists>r s2. dup2 s a b = Inr (r, s2)) \<longleftrightarrow>
         \<not> (process_get_file s a \<noteq> NULL \<and> a \<noteq> b \<and> (b < 0 \<or> FDCOUNT_LIMIT s \<le> b))) \<and>
      (dup2 s a b = Inr (r, s2) \<longrightarrow>
         fd_live s2 \<and>
         (fd_inv s \<and> (2 \<le> b \<or> process_get_file s b \<le> 2) \<longrightarrow> fd_inv s2)) \<and>
      (process_get_file s a \<noteq> NULL \<and> a \<noteq> b \<and> 0 \<le> b \<and> b < FDCOUNT_LIMIT s \<longrightarrow>
         (\<exists>s2 s3. dup2 s a b = Inr (b, s2) \<and>
            process_get_file s2 b = process_get_file s a \<and>
            process_get_file s2 a = process_get_file s a \<and>
            close s2 b = Inr s3 \<and>
            process_get_file s3 a = process_get_file s a \<and> events s3 = events s2 \<and>
            (2 < process_get_file s a \<longrightarrow> files s3 (process_get_file s a) \<noteq> None))) \<and>
      (fresh_run s cs \<longrightarrow> run s cs = Inr s' \<longrightarrow> fd_live s'))"
proof (intro conjI impI)
  assume "\<forall>p \<in> set (fdTable s). p \<le> 2"
  then show "fd_inv s" by (fastforce simp: fd_inv_def)
next
  assume "fd_inv s"
  then show "fd_live s" by (rule fd_inv_imp_live)
next
  assume live: "fd_live s"
    and "p = NULL \<or> (2 < p \<and> files s p = None)" "sys_open s path p = Inr (fd0, s0)"
  then show "fd_live s0" using fd_live_open by blast
next
  assume "p = NULL \<or> (2 < p \<and> files s p = None)" "sys_open s path p = Inr (fd0, s0)"
    "fd_inv s"
  then show "fd_inv s0" using fd_inv_open by blast
next
  assume live: "fd_live s"
  then have "credit_live s NULL" by (simp add: fd_live_credit)
  from close_total_live [OF this] obtain s1 where cl: "close s fd = Inr s1" by blast
  have a: "fd_live s1" by (rule fd_live_close [OF live cl])
  have b: "fd_inv s \<longrightarrow> fd_inv s1" using fd_inv_close [of s fd s1] cl by blast
  note c = close_release_live [OF live cl]
  have d: "fd_inv s \<longrightarrow>
            events s1 = events s @
              (if 1 < fd \<and> 2 < process_get_file s fd \<and>
                  count_list (fdTable s) (process_get_file s fd) = 1
               then [FileClose (process_get_file s fd)] else [])"
    using close_events [of s fd s1] cl by blast
  from cl a b c d
  show "\<exists>s1. close s fd = Inr s1 \<and> fd_live s1 \<and> (fd_inv s \<longrightarrow> fd_inv s1) \<and>
         (events s1 = events s \<or>
          (events s1 = events s @ [FileClose (process_get_file s fd)] \<and> 1 < fd \<and>
           2 < process_get_file s fd \<and>
           count_list (fdTable s) (process_get_file s fd) = 1 \<and>
           process_get_file s fd \<notin> set (fdTable s1) \<and>
           files s1 (process_get_file s fd) = None)) \<and>
         (fd_inv s \<longrightarrow>
            events s1 = events s @
              (if 1 < fd \<and> 2 < process_get_file s fd \<and>
                  count_list (fdTable s) (process_get_file s fd) = 1
               then [FileClose (process_get_file s fd)] else []))"
    by blast
next
  assume live: "fd_live s"
  show "(\<exists>r s2. dup2 s a b = Inr (r, s2)) \<longleftrightarrow>
         \<not> (process_get_file s a \<noteq> NULL \<and> a \<noteq> b \<and> (b < 0 \<or> FDCOUNT_LIMIT s \<le> b))"
    by (rule dup2_returns_iff [OF live])
next
  assume "fd_live s" "dup2 s a b = Inr (r, s2)"
  then show "fd_live s2" by (rule fd_live_dup2)
next
  assume "dup2 s a b = Inr (r, s2)" "fd_inv s \<and> (2 \<le> b \<or> process_get_file s b \<le> 2)"
  then show "fd_inv s2" using fd_inv_dup2 [of s a b r s2] by blast
next
  assume live: "fd_live s"
    and h: "process_get_file s a \<noteq> NULL \<and> a \<noteq> b \<and> 0 \<le> b \<and> b < FDCOUNT_LIMIT s"
  from dup2_alias_live [OF live, of a b] h
  show "\<exists>s2 s3. dup2 s a b = Inr (b, s2) \<and>
            process_get_file s2 b = process_get_file s a \<and>
            process_get_file s2 a = process_get_file s a \<and>
            close s2 b = Inr s3 \<and>
            process_get_file s3 a = process_get_file s a \<and> events s3 = events s2 \<and>
            (2 < process_get_file s a \<longrightarrow> files s3 (process_get_file s a) \<noteq> None)"
    by blast
next
  assume "fd_live s" "fresh_run s cs" "run s cs = Inr s'"
  then show "fd_live s'" by (rule fd_live_run)
qed

theorem fd_alias_count_witness:
  "fd_inv demo_state \<and> fd_live demo_state \<and>
   fresh_run demo_state [Open 4096 100, Open 4096 200, Dup2 2 0, Dup2 3 0] \<and>
   run demo_state [Open 4096 100, Open 4096 200, Dup2 2 0, Dup2 3 0] = Inr leaked_state \<and>
   fd_live leaked_state \<and> \<not> fd_inv leaked_state \<and>
   process_get_file leaked_state 2 = 100 \<and>
   (\<exists>s2 s3. dup2 leaked_state 2 4 = Inr (4, s2) \<and>
      process_get_file s2 4 = 100 \<and> process_get_file s2 2 = 100 \<and>
      close s2 4 = Inr s3 \<and> process_get_file s3 2 = 100 \<and> events s3 = events s2 \<and>
      files s3 100 \<noteq> None) \<and>
   fd_inv one_file_state \<and> dup2 one_file_state 2 4 = Inr (4, two_alias_state) \<and>
   fd_inv two_alias_state \<and>
   close two_alias_state 4 = Inr one_file_state \<and>
   close one_file_state 2 = Inr (demo_state\<lparr>events := [FileClose 100]\<rparr>)"
proof -
  have inv0: "fd_inv demo_state"
    by (simp add: demo_state_def fd_inv_def alias_ok_def)
  have fr: "fresh_run demo_state [Open 4096 100, Open 4096 200, Dup2 2 0, Dup2 3 0]"
    by (simp add: demo_state_def fd_defs scan_fdIdx.simps)
  have rn: "run demo_state [Open 4096 100, Open 4096 200, Dup2 2 0, Dup2 3 0] = Inr leaked_state"
    by (simp add: demo_state_def leaked_state_def fd_defs scan_fdIdx.simps fun_eq_iff)
  have ninv: "\<not> fd_inv leaked_state"
    by (simp add: demo_state_def leaked_state_def fd_inv_def alias_ok_def)
  have g: "process_get_file leaked_state 2 = 100" "FDCOUNT_LIMIT leaked_state = 6"
    by (simp_all add: demo_state_def leaked_state_def fd_defs)
  note th0 = fd_alias_count [of demo_state _ _ _ _ _ _ _ _ _
      "[Open 4096 100, Open 4096 200, Dup2 2 0, Dup2 3 0]" leaked_state]
  from th0 inv0 have live0: "fd_live demo_state" by blast
  with th0 fr rn have live: "fd_live leaked_state" by blast
  note th1 = fd_alias_count [of leaked_state _ _ _ _ _ 2 4]
  from th1 live g
  have al: "\<exists>s2 s3. dup2 leaked_state 2 4 = Inr (4, s2) \<and>
      process_get_file s2 4 = 100 \<and> process_get_file s2 2 = 100 \<and>
      close s2 4 = Inr s3 \<and> process_get_file s3 2 = 100 \<and> events s3 = events s2 \<and>
      files s3 100 \<noteq> None"
    by simp
  have inv1: "fd_inv one_file_state"
    by (simp add: one_file_state_def demo_state_def fd_inv_def alias_ok_def)
  have d: "dup2 one_file_state 2 4 = Inr (4, two_alias_state)"
    by (simp add: one_file_state_def two_alias_state_def demo_state_def fd_defs)
  have c: "close two_alias_state 4 = Inr one_file_state"
    by (simp add: one_file_state_def two_alias_state_def demo_state_def fd_defs)
  have c2: "close one_file_state 2 = Inr (demo_state\<lparr>events := [FileClose 100]\<rparr>)"
    by (simp add: one_file_state_def two_alias_state_def demo_state_def fd_defs fun_eq_iff)
  note th2 = fd_alias_count [of one_file_state _ _ _ _ _ 2 4 4 two_alias_state]
  from th2 inv1 d have inv2: "fd_inv two_alias_state" by simp
  from inv0 live0 fr rn live ninv g(1) al inv1 d inv2 c c2 show ?thesis by blast
qed

text \<open>
  The claim as stated fails: \<^verbatim>\<open>close\<close> returns early for the descriptors 0 and 1, so a
  \<^verbatim>\<open>dup2\<close> onto descriptor 0 that holds a file handle overwrites the slot without
  taking the alias back. After \<^verbatim>\<open>open\<close>, \<^verbatim>\<open>open\<close>, \<^verbatim>\<open>dup2 (2, 0)\<close>, \<^verbatim>\<open>dup2 (3, 0)\<close> the
  first handle is in one slot with alias count 1, and after \<^verbatim>\<open>close (2)\<close> it is in no
  slot and was never released.
\<close>

theorem fd_alias_count_counterexample:
  "fd_inv demo_state \<and>
   (case run demo_state [Open 4096 100, Open 4096 200, Dup2 2 0] of
      Inl e \<Rightarrow> False
    | Inr s \<Rightarrow> fd_inv s) \<and>
   (case run demo_state [Open 4096 100, Open 4096 200, Dup2 2 0, Dup2 3 0] of
      Inl e \<Rightarrow> False
    | Inr s \<Rightarrow> \<not> fd_inv s \<and> fdTable s = [200, STDOUT, 100, 200, NULL, NULL] \<and>
               map_option dupCount (files s 100) = Some 1) \<and>
   (case run demo_state [Open 4096 100, Open 4096 200, Dup2 2 0, Dup2 3 0, Close 2] of
      Inl e \<Rightarrow> False
    | Inr s \<Rightarrow> 100 \<notin> set (fdTable s) \<and> files s 100 \<noteq> None \<and> events s = [])"
  by (simp add: demo_state_def fd_defs fd_inv_def alias_ok_def scan_fdIdx.simps)

subsection \<open>The bounds of the table\<close>

text \<open>
  Claim C2 fails on the code. \<^verbatim>\<open>dup2\<close> looks \<^verbatim>\<open>newfd\<close> up with \<^verbatim>\<open>process_get_file\<close>, which
  answers the null pointer for a descriptor outside the table, and goes on: the store
  \<^verbatim>\<open>fdt[newfd] = old_file\<close> is made at the index the caller gave, here one past the last
  slot and one below the first.
\<close>

theorem dup2_stores_outside_table:
  "FDCOUNT_LIMIT demo_state = 6 \<and>
   dup2 demo_state 0 6 = Inl (OutOfBounds 6) \<and>
   dup2 demo_state 0 (- 1) = Inl (OutOfBounds (- 1))"
  by (simp add: demo_state_def fd_defs)

subsection \<open>The descriptor allocator\<close>

text \<open>Opening files one after the other, collecting the descriptors.\<close>

fun open_all :: "kstate \<Rightarrow> addr \<Rightarrow> addr list \<Rightarrow> fault + (int list \<times> kstate)" where
  "open_all s path [] = Inr ([], s)"
| "open_all s path (p # ps) =
     (case sys_open s path p of
        Inl e \<Rightarrow> Inl e
      | Inr (fd, s') \<Rightarrow>
          (case open_all s' path ps of
             Inl e \<Rightarrow> Inl e
           | Inr (fds, s'') \<Rightarrow> Inr (fd # fds, s'')))"

lemma scan_eq:
  assumes "i \<le> k" "k < length fdt" "fdt ! k = NULL"
    and occ: "\<forall>j. i \<le> j \<and> j < k \<longrightarrow> fdt ! j \<noteq> NULL"
  shows "scan_fdIdx fdt i = k"
proof (rule antisym)
  show "scan_fdIdx fdt i \<le> k" by (rule scan_first [OF assms(1-3)])
  show "k \<le> scan_fdIdx fdt i"
  proof (rule ccontr)
    assume "\<not> k \<le> scan_fdIdx fdt i"
    then have lt: "scan_fdIdx fdt i < k" by simp
    with assms(2) have "scan_fdIdx fdt i < length fdt" by simp
    from scan_stop [OF this] occ lt scan_ge [of i fdt] show False by auto
  qed
qed

lemma scan_none:
  assumes occ: "\<forall>j. i \<le> j \<and> j < length fdt \<longrightarrow> fdt ! j \<noteq> NULL"
  shows "\<not> scan_fdIdx fdt i < length fdt"
proof
  assume lt: "scan_fdIdx fdt i < length fdt"
  from scan_stop [OF lt] occ lt scan_ge [of i fdt] show False by auto
qed

lemma add_minus_one_iff:
  "fst (process_add_file s f) = - 1 \<longleftrightarrow>
   (\<forall>j. fdIdx s \<le> j \<and> j < length (fdTable s) \<longrightarrow> fdTable s ! j \<noteq> NULL)"
proof
  assume r: "fst (process_add_file s f) = - 1"
  have nlt: "\<not> scan_fdIdx (fdTable s) (fdIdx s) < length (fdTable s)"
  proof
    assume "scan_fdIdx (fdTable s) (fdIdx s) < length (fdTable s)"
    from add_found [OF this, of f] r show False by simp
  qed
  show "\<forall>j. fdIdx s \<le> j \<and> j < length (fdTable s) \<longrightarrow> fdTable s ! j \<noteq> NULL"
  proof (intro allI impI)
    fix j assume j: "fdIdx s \<le> j \<and> j < length (fdTable s)"
    with nlt have "j < scan_fdIdx (fdTable s) (fdIdx s)" by simp
    from scan_skipped [OF _ this] j show "fdTable s ! j \<noteq> NULL" by simp
  qed
next
  assume "\<forall>j. fdIdx s \<le> j \<and> j < length (fdTable s) \<longrightarrow> fdTable s ! j \<noteq> NULL"
  from add_full [OF scan_none [OF this], of f] show "fst (process_add_file s f) = - 1" by simp
qed

lemma close_mark:
  assumes "close s fd = Inr s'"
  shows "fdIdx s' = fdIdx s \<and> kern_base s' = kern_base s \<and> pml4_mapped s' = pml4_mapped s"
proof (cases "process_get_file s fd = NULL \<or> fd \<le> 1 \<or> process_get_file s fd \<le> 2")
  case True
  with assms have "s' = s \<or> s' = close_counts s fd"
    using close_null [of s fd] close_std [of s fd] by auto
  then show ?thesis by (auto simp: close_counts_def)
next
  case False
  then have big: "2 < process_get_file s fd" and fd2: "1 < fd" by auto
  show ?thesis
  proof (cases "files s (process_get_file s fd)")
    case None
    from close_dangling [OF big fd2 None] assms show ?thesis by simp
  next
    case (Some fo)
    from close_handle [OF big fd2 Some] assms show ?thesis
      by (cases "dupCount fo = 0") (auto simp: file_close_def process_close_file_def)
  qed
qed

lemma dup2_mark:
  assumes d: "dup2 s a b = Inr (r, s')"
  shows "fdIdx s' = fdIdx s"
proof (cases "process_get_file s a = NULL \<or> a = b")
  case True
  with d have "s' = s"
    using dup2_trivial(1) [of s a b] dup2_trivial(2) [of s a]
    by (cases "process_get_file s a = NULL") auto
  then show ?thesis by simp
next
  case False
  then have nn: "process_get_file s a \<noteq> NULL" and ne: "a \<noteq> b" by auto
  from dup2_Inr_parts [OF d nn ne] obtain s1 s2
    where s1: "dup2_count s (process_get_file s a) = Inr s1" and s2: "close s1 b = Inr s2"
      and s': "s' = s2\<lparr>fdTable := (fdTable s2)[nat b := process_get_file s a]\<rparr>"
    by blast
  from s1 have "fdIdx s1 = fdIdx s"
    by (auto simp: dup2_count_def split: if_splits option.splits)
  with close_mark [OF s2] show ?thesis unfolding s' by simp
qed

lemma open_found:
  assumes ca: "check_address s path = Inr ()" and nn: "p \<noteq> NULL"
    and k: "scan_fdIdx (fdTable s) (fdIdx s) = k" "k < length (fdTable s)"
  shows "sys_open s path p =
           Inr (int k, (filesys_open s p)\<lparr>fdIdx := k, fdTable := (fdTable s)[k := p]\<rparr>)"
proof -
  have t: "fdTable (filesys_open s p) = fdTable s" "fdIdx (filesys_open s p) = fdIdx s"
    by (simp_all add: filesys_open_def)
  from k t have "scan_fdIdx (fdTable (filesys_open s p)) (fdIdx (filesys_open s p))
                   < length (fdTable (filesys_open s p))" by simp
  from add_found [OF this, of p] t k ca nn show ?thesis
    by (simp add: sys_open_def)
qed

lemma open_full:
  assumes ca: "check_address s path = Inr ()" and nn: "p \<noteq> NULL"
    and occ: "\<forall>j. fdIdx s \<le> j \<and> j < length (fdTable s) \<longrightarrow> fdTable s ! j \<noteq> NULL"
  shows "\<exists>s'. sys_open s path p = Inr (- 1, s')"
proof -
  have t: "fdTable (filesys_open s p) = fdTable s" "fdIdx (filesys_open s p) = fdIdx s"
    by (simp_all add: filesys_open_def)
  from scan_none [OF occ] t
  have "\<not> scan_fdIdx (fdTable (filesys_open s p)) (fdIdx (filesys_open s p))
            < length (fdTable (filesys_open s p))" by simp
  from add_full [OF this, of p] ca nn show ?thesis
    by (simp add: sys_open_def)
qed

lemma check_address_cong:
  "kern_base s' = kern_base s \<Longrightarrow> pml4_mapped s' = pml4_mapped s \<Longrightarrow>
   check_address s' a = check_address s a"
  by (simp add: check_address_def is_user_vaddr_def)

lemma open_all_fill:
  assumes "fdTable s = xs @ replicate n NULL" and "fdIdx s \<le> length xs"
    and "\<forall>j. fdIdx s \<le> j \<and> j < length xs \<longrightarrow> xs ! j \<noteq> NULL"
    and "check_address s path = Inr ()"
    and "\<forall>p \<in> set ps. p \<noteq> NULL" and "length ps \<le> n"
  shows "\<exists>s'. open_all s path ps = Inr (map int [length xs ..< length xs + length ps], s') \<and>
              fdTable s' = xs @ ps @ replicate (n - length ps) NULL \<and>
              fdIdx s' = (if ps = [] then fdIdx s else length xs + length ps - 1) \<and>
              check_address s' path = Inr ()"
  using assms
proof (induction ps arbitrary: s xs n)
  case Nil
  then show ?case by simp
next
  case (Cons p ps)
  let ?T = "fdTable s"
  let ?k = "length xs"
  from Cons.prems have n: "0 < n" and nn: "p \<noteq> NULL" by auto
  have kl: "?k < length ?T" using Cons.prems(1) n by simp
  have empty: "?T ! ?k = NULL" using Cons.prems(1) n by (simp add: nth_append)
  have occ: "\<forall>j. fdIdx s \<le> j \<and> j < ?k \<longrightarrow> ?T ! j \<noteq> NULL"
    using Cons.prems(1,3) by (simp add: nth_append)
  from scan_eq [OF Cons.prems(2) kl empty occ]
  have sc: "scan_fdIdx ?T (fdIdx s) = ?k" .
  let ?s1 = "(filesys_open s p)\<lparr>fdIdx := ?k, fdTable := ?T[?k := p]\<rparr>"
  from open_found [OF Cons.prems(4) nn sc kl]
  have op: "sys_open s path p = Inr (int ?k, ?s1)" .
  have T1: "fdTable ?s1 = (xs @ [p]) @ replicate (n - 1) NULL"
    using Cons.prems(1) n by (cases n) (simp_all add: list_update_append)
  have m1: "fdIdx ?s1 \<le> length (xs @ [p])" by simp
  have occ1: "\<forall>j. fdIdx ?s1 \<le> j \<and> j < length (xs @ [p]) \<longrightarrow> (xs @ [p]) ! j \<noteq> NULL"
    using nn by (auto simp: nth_append)
  have ca1: "check_address ?s1 path = Inr ()"
    using Cons.prems(4) check_address_cong [of ?s1 s path] by (simp add: filesys_open_def)
  have ps1: "\<forall>p \<in> set ps. p \<noteq> NULL" "length ps \<le> n - 1" using Cons.prems by auto
  from Cons.IH [OF T1 m1 occ1 ca1 ps1] obtain s'
    where ih: "open_all ?s1 path ps =
                 Inr (map int [length (xs @ [p]) ..< length (xs @ [p]) + length ps], s')"
      "fdTable s' = (xs @ [p]) @ ps @ replicate (n - 1 - length ps) NULL"
      "fdIdx s' = (if ps = [] then fdIdx ?s1 else length (xs @ [p]) + length ps - 1)"
      "check_address s' path = Inr ()"
    by blast
  have u: "[?k ..< Suc (?k + length ps)] = ?k # [Suc ?k ..< Suc (?k + length ps)]"
    by (subst upt_rec) simp
  have "open_all s path (p # ps) = Inr (map int [?k ..< ?k + length (p # ps)], s')"
    using op ih(1) by (simp add: u del: upt_Suc)
  moreover have "fdTable s' = xs @ (p # ps) @ replicate (n - length (p # ps)) NULL"
    using ih(2) by simp
  moreover have "fdIdx s' = (if p # ps = [] then fdIdx s else ?k + length (p # ps) - 1)"
    using ih(3) by simp
  ultimately show ?case using ih(4) by blast
qed


lemma open_after_fill:
  assumes T: "fdTable s = STDIN # STDOUT # replicate n NULL" and mark: "fdIdx s \<le> 2"
    and ca: "check_address s path = Inr ()"
    and len: "length ps = n" and nn: "\<forall>p \<in> set ps. p \<noteq> NULL"
  shows "\<exists>s'. open_all s path ps = Inr (map int [2 ..< 2 + n], s') \<and>
              fdTable s' = STDIN # STDOUT # ps \<and>
              (\<forall>p. p \<noteq> NULL \<longrightarrow> (\<exists>s''. sys_open s' path p = Inr (- 1, s''))) \<and>
              (\<forall>fd' s2 p. close s' fd' = Inr s2 \<and> fd' \<noteq> int n + 1 \<and> 0 < n \<and> p \<noteq> NULL \<longrightarrow>
                 (\<exists>s''. sys_open s2 path p = Inr (- 1, s'')))"
proof -
  have T': "fdTable s = [STDIN, STDOUT] @ replicate n NULL" using T by simp
  have m: "fdIdx s \<le> length [STDIN, STDOUT]" using mark by simp
  have occ: "\<forall>j. fdIdx s \<le> j \<and> j < length [STDIN, STDOUT] \<longrightarrow> [STDIN, STDOUT] ! j \<noteq> NULL"
    by (auto simp: less_Suc_eq numeral_2_eq_2)
  have le: "length ps \<le> n" using len by simp
  from open_all_fill [OF T' m occ ca nn le] obtain s'
    where raw: "open_all s path ps =
                  Inr (map int [length [STDIN, STDOUT] ..< length [STDIN, STDOUT] + length ps], s')"
      "fdTable s' = [STDIN, STDOUT] @ ps @ replicate (n - length ps) NULL"
      "fdIdx s' = (if ps = [] then fdIdx s else length [STDIN, STDOUT] + length ps - 1)"
      and ca': "check_address s' path = Inr ()"
    by blast
  have l2: "length [STDIN, STDOUT] = 2" by simp
  have run: "open_all s path ps = Inr (map int [2 ..< 2 + n], s')"
    using raw(1) by (simp only: l2 len)
  have tbl: "fdTable s' = STDIN # STDOUT # ps" using raw(2) len by simp
  have idx: "fdIdx s' = (if ps = [] then fdIdx s else n + 1)"
    using raw(3) len by (simp only: l2) auto
  have top: "0 < n \<Longrightarrow> fdTable s' ! (n + 1) \<noteq> NULL"
  proof -
    assume "0 < n"
    with len have "ps ! (n - 1) \<in> set ps" by simp
    with nn have "ps ! (n - 1) \<noteq> NULL" by blast
    moreover have "fdTable s' ! (n + 1) = ps ! (n - 1)"
      using tbl \<open>0 < n\<close> by (cases n) simp_all
    ultimately show ?thesis by simp
  qed
  have occ': "\<forall>j. fdIdx s' \<le> j \<and> j < length (fdTable s') \<longrightarrow> fdTable s' ! j \<noteq> NULL"
  proof (cases "ps = []")
    case True
    with tbl idx show ?thesis by (auto simp: less_Suc_eq)
  next
    case False
    with len have "0 < n" by auto
    with top idx tbl len False show ?thesis
      by (auto simp: less_Suc_eq)
  qed
  have full: "\<forall>p. p \<noteq> NULL \<longrightarrow> (\<exists>s''. sys_open s' path p = Inr (- 1, s''))"
    using open_full [OF ca' _ occ'] by blast
  have rewind: "\<forall>fd' s2 p. close s' fd' = Inr s2 \<and> fd' \<noteq> int n + 1 \<and> 0 < n \<and> p \<noteq> NULL \<longrightarrow>
                 (\<exists>s''. sys_open s2 path p = Inr (- 1, s''))"
  proof (intro allI impI)
    fix fd' s2 p
    assume a: "close s' fd' = Inr s2 \<and> fd' \<noteq> int n + 1 \<and> 0 < n \<and> p \<noteq> NULL"
    then have cl: "close s' fd' = Inr s2" and ne: "fd' \<noteq> int n + 1" and n: "0 < n"
      and p: "p \<noteq> NULL" by auto
    from close_mark [OF cl] have mk: "fdIdx s2 = fdIdx s'" "kern_base s2 = kern_base s'"
      "pml4_mapped s2 = pml4_mapped s'" by auto
    from check_address_cong [OF mk(2,3)] ca' have ca2: "check_address s2 path = Inr ()" by simp
    from n len have ne': "ps \<noteq> []" by auto
    with idx mk have i2: "fdIdx s2 = n + 1" by simp
    have "length (fdTable s2) = length (fdTable s')" using close_table [OF cl] by simp
    then have l2: "length (fdTable s2) = n + 2" using tbl len by simp
    have "fdTable s2 ! (n + 1) = fdTable s' ! (n + 1)"
    proof (cases "1 < fd' \<and> 2 < process_get_file s' fd'")
      case True
      then have "nat fd' \<noteq> n + 1" using ne by auto
      with close_table [OF cl] True show ?thesis by simp
    next
      case False
      with close_table [OF cl] show ?thesis by simp
    qed
    with top [OF n] have t2: "fdTable s2 ! (n + 1) \<noteq> NULL" by simp
    have "\<forall>j. fdIdx s2 \<le> j \<and> j < length (fdTable s2) \<longrightarrow> fdTable s2 ! j \<noteq> NULL"
      using i2 l2 t2 by (auto simp: less_Suc_eq)
    from open_full [OF ca2 p this] show "\<exists>s''. sys_open s2 path p = Inr (- 1, s'')" .
  qed
  from run tbl full rewind show ?thesis by blast
qed

text \<open>The table of \<open>demo_state\<close> after four files were opened, and after descriptor 3 was closed.\<close>

definition full_state :: kstate where
  "full_state =
     demo_state\<lparr>fdTable := [STDIN, STDOUT, 100, 200, 300, 400], fdIdx := 5,
                files := (\<lambda>_. None)(100 \<mapsto> \<lparr>dupCount = 0\<rparr>, 200 \<mapsto> \<lparr>dupCount = 0\<rparr>,
                                     300 \<mapsto> \<lparr>dupCount = 0\<rparr>, 400 \<mapsto> \<lparr>dupCount = 0\<rparr>)\<rparr>"

definition gap_state :: kstate where
  "gap_state =
     full_state\<lparr>fdTable := [STDIN, STDOUT, 100, NULL, 300, 400],
                files := (files full_state)(200 := None), events := [FileClose 200]\<rparr>"

text \<open>
  Claim C6. \<^verbatim>\<open>process_add_file\<close> moves the mark \<^verbatim>\<open>fdIdx\<close> up to the first empty slot at
  or above it: every slot it passes is occupied, the handle is stored at that slot and
  its index returned. When no slot from the mark up to the end of the table is empty
  it returns -1 and only the mark has moved: -1 is returned exactly then. The mark
  never decreases, and \<^verbatim>\<open>close\<close> leaves it where it is. Hence, on a table with the
  standard streams at 0 and 1 and \<open>n\<close> empty slots (\<^verbatim>\<open>FDCOUNT_LIMIT\<close> = \<open>n + 2\<close>), opening
  \<open>n\<close> files returns the descriptors 2, ..., \<open>n + 1\<close> and fills the table; one more
  \<^verbatim>\<open>open\<close> returns -1, and still does after a descriptor below the mark was closed.
\<close>

theorem process_add_file_scan:
  "(let k = scan_fdIdx (fdTable s) (fdIdx s) in
      fdIdx s \<le> k \<and>
      (\<forall>j. fdIdx s \<le> j \<and> j < k \<longrightarrow> j < length (fdTable s) \<and> fdTable s ! j \<noteq> NULL) \<and>
      (k < length (fdTable s) \<longrightarrow>
         fdTable s ! k = NULL \<and>
         process_add_file s f = (int k, s\<lparr>fdIdx := k, fdTable := (fdTable s)[k := f]\<rparr>)) \<and>
      (\<not> k < length (fdTable s) \<longrightarrow> process_add_file s f = (- 1, s\<lparr>fdIdx := k\<rparr>))) \<and>
   (fst (process_add_file s f) = - 1 \<longleftrightarrow>
      (\<forall>j. fdIdx s \<le> j \<and> j < length (fdTable s) \<longrightarrow> fdTable s ! j \<noteq> NULL)) \<and>
   fdIdx s \<le> fdIdx (snd (process_add_file s f)) \<and>
   (close s fd = Inr s1 \<longrightarrow> fdIdx s1 = fdIdx s) \<and>
   (fdTable s = STDIN # STDOUT # replicate n NULL \<and> fdIdx s \<le> 2 \<and>
    check_address s path = Inr () \<and> length ps = n \<and> (\<forall>p \<in> set ps. p \<noteq> NULL) \<longrightarrow>
      (\<exists>s'. open_all s path ps = Inr (map int [2 ..< 2 + n], s') \<and>
            fdTable s' = STDIN # STDOUT # ps \<and>
            (\<forall>p. p \<noteq> NULL \<longrightarrow> (\<exists>s''. sys_open s' path p = Inr (- 1, s''))) \<and>
            (\<forall>fd' s2 p. close s' fd' = Inr s2 \<and> fd' \<noteq> int n + 1 \<and> 0 < n \<and> p \<noteq> NULL \<longrightarrow>
               (\<exists>s''. sys_open s2 path p = Inr (- 1, s'')))))"
proof -
  let ?k = "scan_fdIdx (fdTable s) (fdIdx s)"
  have a: "fdIdx s \<le> ?k" by (rule scan_ge)
  have b: "\<forall>j. fdIdx s \<le> j \<and> j < ?k \<longrightarrow> j < length (fdTable s) \<and> fdTable s ! j \<noteq> NULL"
    using scan_skipped [of "fdIdx s" _ "fdTable s"] by blast
  have c: "?k < length (fdTable s) \<longrightarrow>
         fdTable s ! ?k = NULL \<and>
         process_add_file s f = (int ?k, s\<lparr>fdIdx := ?k, fdTable := (fdTable s)[?k := f]\<rparr>)"
    using scan_stop [of "fdTable s" "fdIdx s"] add_found [of s f] by blast
  have d: "\<not> ?k < length (fdTable s) \<longrightarrow> process_add_file s f = (- 1, s\<lparr>fdIdx := ?k\<rparr>)"
    using add_full [of s f] by blast
  have e: "fdIdx s \<le> fdIdx (snd (process_add_file s f))"
    using a add_found [of s f] add_full [of s f]
    by (cases "?k < length (fdTable s)") simp_all
  have g: "close s fd = Inr s1 \<longrightarrow> fdIdx s1 = fdIdx s"
    using close_mark [of s fd s1] by blast
  have h: "fdTable s = STDIN # STDOUT # replicate n NULL \<and> fdIdx s \<le> 2 \<and>
    check_address s path = Inr () \<and> length ps = n \<and> (\<forall>p \<in> set ps. p \<noteq> NULL) \<longrightarrow>
      (\<exists>s'. open_all s path ps = Inr (map int [2 ..< 2 + n], s') \<and>
            fdTable s' = STDIN # STDOUT # ps \<and>
            (\<forall>p. p \<noteq> NULL \<longrightarrow> (\<exists>s''. sys_open s' path p = Inr (- 1, s''))) \<and>
            (\<forall>fd' s2 p. close s' fd' = Inr s2 \<and> fd' \<noteq> int n + 1 \<and> 0 < n \<and> p \<noteq> NULL \<longrightarrow>
               (\<exists>s''. sys_open s2 path p = Inr (- 1, s''))))"
    using open_after_fill [of s n path ps] by blast
  from a b c d e g h add_minus_one_iff [of s f] show ?thesis
    unfolding Let_def by blast
qed

theorem process_add_file_scan_witness:
  "fdTable demo_state = STDIN # STDOUT # replicate 4 NULL \<and> fdIdx demo_state \<le> 2 \<and>
   check_address demo_state 4096 = Inr () \<and>
   open_all demo_state 4096 [100, 200, 300, 400] = Inr ([2, 3, 4, 5], full_state) \<and>
   (\<exists>s''. sys_open full_state 4096 500 = Inr (- 1, s'')) \<and>
   close full_state 3 = Inr gap_state \<and> process_get_file gap_state 3 = NULL \<and>
   fdIdx gap_state = fdIdx full_state \<and>
   (\<exists>s''. sys_open gap_state 4096 500 = Inr (- 1, s''))"
proof -
  have h1: "fdTable demo_state = STDIN # STDOUT # replicate 4 NULL"
    by (simp add: demo_state_def numeral_eq_Suc)
  have h2: "fdIdx demo_state \<le> 2" by (simp add: demo_state_def)
  have h3: "check_address demo_state 4096 = Inr ()"
    by (simp add: demo_state_def check_address_def is_user_vaddr_def)
  have h4: "length [100, 200, 300, 400 :: addr] = 4" by simp
  have h5: "\<forall>p \<in> set [100, 200, 300, 400 :: addr]. p \<noteq> NULL" by simp
  have ev: "open_all demo_state 4096 [100, 200, 300, 400] = Inr ([2, 3, 4, 5], full_state)"
    by (simp add: demo_state_def full_state_def fd_defs scan_fdIdx.simps)
  have cl: "close full_state 3 = Inr gap_state"
    by (simp add: demo_state_def full_state_def gap_state_def fd_defs)
  have g: "process_get_file gap_state 3 = NULL" "fdIdx gap_state = fdIdx full_state"
    by (simp_all add: demo_state_def full_state_def gap_state_def fd_defs)
  note th = process_add_file_scan [of demo_state 100 3 gap_state 4 4096 "[100, 200, 300, 400]"]
  from th h1 h2 h3 h4 h5 obtain s'
    where run: "open_all demo_state 4096 [100, 200, 300, 400] = Inr (map int [2 ..< 2 + 4], s')"
      and full: "\<forall>p. p \<noteq> NULL \<longrightarrow> (\<exists>s''. sys_open s' 4096 p = Inr (- 1, s''))"
      and rew: "\<forall>fd' s2 p. close s' fd' = Inr s2 \<and> fd' \<noteq> int 4 + 1 \<and> (0::nat) < 4 \<and> p \<noteq> NULL \<longrightarrow>
               (\<exists>s''. sys_open s2 4096 p = Inr (- 1, s''))"
    by blast
  from run ev have s': "s' = full_state" by simp
  from full s' have f500: "\<exists>s''. sys_open full_state 4096 500 = Inr (- 1, s'')" by simp
  from rew [rule_format, of 3 gap_state 500] cl s'
  have g500: "\<exists>s''. sys_open gap_state 4096 500 = Inr (- 1, s'')" by simp
  from h1 h2 h3 ev f500 cl g g500 show ?thesis by blast
qed

subsection \<open>The file I/O gate\<close>

lemma getc_loop_spec:
  assumes "getc_loop s buf i n = (r, s')"
  shows "i \<le> r \<and> r \<le> max i n \<and>
         (\<forall>j < r - i. keys s (keys_taken s + j) \<noteq> 0) \<and>
         ((r = max i n \<and> keys_taken s' = keys_taken s + (r - i)) \<or>
          (r < n \<and> keys s (keys_taken s + (r - i)) = 0 \<and>
           keys_taken s' = keys_taken s + (r - i) + 1)) \<and>
         umem s' = (\<lambda>a. if buf \<le> a \<and> a < buf + (keys_taken s' - keys_taken s)
                         then keys s (keys_taken s + (a - buf)) else umem s a) \<and>
         s'\<lparr>umem := umem s, keys_taken := keys_taken s\<rparr> = s"
  using assms
proof (induction s buf i n arbitrary: r s' rule: getc_loop.induct)
  case (1 s buf i n)
  show ?case
  proof (cases "i < n")
    case False
    with "1.prems" have "r = i" "s' = s" by (simp_all add: getc_loop.simps)
    with False show ?thesis by (auto simp: max_def fun_eq_iff)
  next
    case True
    let ?c = "keys s (keys_taken s)"
    let ?s1 = "s\<lparr>keys_taken := keys_taken s + 1, umem := (umem s)(buf := ?c)\<rparr>"
    show ?thesis
    proof (cases "?c = 0")
      case z: True
      with True "1.prems" have r: "r = i" "s' = ?s1"
        by (simp_all add: getc_loop.simps [of s] Let_def)
      with True z show ?thesis by (auto simp: fun_eq_iff)
    next
      case nz: False
      with True "1.prems" have rec: "getc_loop ?s1 (buf + 1) (i + 1) n = (r, s')"
        by (simp add: getc_loop.simps [of s] Let_def)
      from "1.IH" [OF True refl refl nz rec]
      have ih: "i + 1 \<le> r" "r \<le> max (i + 1) n"
        "\<forall>j < r - (i + 1). keys ?s1 (keys_taken ?s1 + j) \<noteq> 0"
        "(r = max (i + 1) n \<and> keys_taken s' = keys_taken ?s1 + (r - (i + 1))) \<or>
          (r < n \<and> keys ?s1 (keys_taken ?s1 + (r - (i + 1))) = 0 \<and>
           keys_taken s' = keys_taken ?s1 + (r - (i + 1)) + 1)"
        "umem s' = (\<lambda>a. if buf + 1 \<le> a \<and> a < buf + 1 + (keys_taken s' - keys_taken ?s1)
                         then keys ?s1 (keys_taken ?s1 + (a - (buf + 1))) else umem ?s1 a)"
        "s'\<lparr>umem := umem ?s1, keys_taken := keys_taken ?s1\<rparr> = ?s1"
        by blast+
      have a: "i \<le> r" "r \<le> max i n" using ih(1,2) True by auto
      have b: "\<forall>j < r - i. keys s (keys_taken s + j) \<noteq> 0"
      proof (intro allI impI)
        fix j assume j: "j < r - i"
        show "keys s (keys_taken s + j) \<noteq> 0"
        proof (cases j)
          case 0
          with nz show ?thesis by simp
        next
          case (Suc j')
          with j have "j' < r - (i + 1)" by simp
          with ih(3) Suc show ?thesis by simp
        qed
      qed
      have c: "(r = max i n \<and> keys_taken s' = keys_taken s + (r - i)) \<or>
          (r < n \<and> keys s (keys_taken s + (r - i)) = 0 \<and>
           keys_taken s' = keys_taken s + (r - i) + 1)"
      proof -
        from ih(1) obtain d where rd: "r = i + 1 + d" using le_Suc_ex by blast
        then have d1: "r - (i + 1) = d" and d2: "r - i = d + 1" by simp_all
        from ih(4) True show ?thesis unfolding d1 d2 by (auto simp: max_def)
      qed
      have d: "umem s' = (\<lambda>a. if buf \<le> a \<and> a < buf + (keys_taken s' - keys_taken s)
                         then keys s (keys_taken s + (a - buf)) else umem s a)"
      proof -
        have ks1: "keys ?s1 = keys s" "keys_taken ?s1 = keys_taken s + 1"
          "umem ?s1 = (umem s)(buf := ?c)" by simp_all
        have "keys_taken ?s1 \<le> keys_taken s'" using ih(4) by auto
        then obtain e where e: "keys_taken s' = keys_taken s + 1 + e"
          unfolding ks1 using le_Suc_ex by blast
        have e1: "keys_taken s' - (keys_taken s + 1) = e" and e2: "keys_taken s' - keys_taken s = 1 + e"
          using e by simp_all
        have u: "umem s' = (\<lambda>a. if buf + 1 \<le> a \<and> a < buf + 1 + e
                              then keys s (keys_taken s + 1 + (a - (buf + 1)))
                              else ((umem s)(buf := ?c)) a)"
          using ih(5) unfolding ks1 e1 .
        have "\<And>a. buf + 1 \<le> a \<Longrightarrow> keys_taken s + 1 + (a - (buf + 1)) = keys_taken s + (a - buf)"
          by simp
        then show ?thesis unfolding u e2 by (auto simp: fun_eq_iff)
      qed
      have e: "s'\<lparr>umem := umem s, keys_taken := keys_taken s\<rparr> = s"
      proof -
        from ih(6) have "s'\<lparr>umem := umem ?s1, keys_taken := keys_taken ?s1\<rparr>
                           \<lparr>umem := umem s, keys_taken := keys_taken s\<rparr> =
                         ?s1\<lparr>umem := umem s, keys_taken := keys_taken s\<rparr>" by simp
        then show ?thesis by simp
      qed
      from a b c d e show ?thesis by blast
    qed
  qed
qed

lemmas io_defs = read_def sys_write_def putbuf_def check_address_def is_user_vaddr_def
  process_get_file_def FDCOUNT_LIMIT_def Let_def

text \<open>
  Claim C5, as the code has it. For a buffer that passed the address validator and a
  descriptor that resolves to the input stream, \<^verbatim>\<open>read\<close> panics when the stream's open
  count is zero; otherwise it returns \<open>i\<close>, the number of keys it took and stored
  before the first zero byte, or \<^verbatim>\<open>size\<close> when none of the first \<^verbatim>\<open>size\<close> keys is zero.
  The keys are taken one at a time, in order, and stored at consecutive addresses from
  \<^verbatim>\<open>buffer\<close>. A zero byte that ends the loop was itself taken and stored, and is not
  counted: then \<open>i + 1\<close> bytes were read and stored, and \<open>i\<close> is returned. Nothing but
  the buffer and the console's position changes.
\<close>

theorem read_stdin:
  assumes ca: "check_address s buffer = Inr ()" and fd: "process_get_file s fd = STDIN"
  shows "(stdin_count s = 0 \<longrightarrow> read s fd buffer sz ret = Inl Panic) \<and>
         (stdin_count s \<noteq> 0 \<longrightarrow>
            (\<exists>i s'. read s fd buffer sz ret = Inr (of_nat i, s') \<and>
               i \<le> unat sz \<and> unat (of_nat i :: 32 word) = i \<and>
               (\<forall>j < i. keys s (keys_taken s + j) \<noteq> 0) \<and>
               ((i = unat sz \<and> keys_taken s' = keys_taken s + i) \<or>
                (i < unat sz \<and> keys s (keys_taken s + i) = 0 \<and>
                 keys_taken s' = keys_taken s + i + 1)) \<and>
               umem s' = (\<lambda>a. if buffer \<le> a \<and> a < buffer + (keys_taken s' - keys_taken s)
                               then keys s (keys_taken s + (a - buffer)) else umem s a) \<and>
               s'\<lparr>umem := umem s, keys_taken := keys_taken s\<rparr> = s))"
proof (intro conjI impI)
  assume "stdin_count s = 0"
  with ca fd show "read s fd buffer sz ret = Inl Panic" by (simp add: read_def)
next
  assume nz: "stdin_count s \<noteq> 0"
  obtain i s' where g: "getc_loop s buffer 0 (unat sz) = (i, s')"
    by (cases "getc_loop s buffer 0 (unat sz)")
  from getc_loop_spec [OF g]
  have sp: "i \<le> unat sz" "\<forall>j < i. keys s (keys_taken s + j) \<noteq> 0"
    "(i = unat sz \<and> keys_taken s' = keys_taken s + i) \<or>
     (i < unat sz \<and> keys s (keys_taken s + i) = 0 \<and> keys_taken s' = keys_taken s + i + 1)"
    "umem s' = (\<lambda>a. if buffer \<le> a \<and> a < buffer + (keys_taken s' - keys_taken s)
                    then keys s (keys_taken s + (a - buffer)) else umem s a)"
    "s'\<lparr>umem := umem s, keys_taken := keys_taken s\<rparr> = s"
    by auto
  have rd: "read s fd buffer sz ret = Inr (of_nat i, s')"
    using ca fd nz g by (simp add: read_def)
  have "unat sz < 2 ^ 32" using unsigned_less [where 'b = 32 and 'a = nat, of sz] by simp
  with sp(1) have "i < 2 ^ 32" by simp
  then have "unat (of_nat i :: 32 word) = i" by (simp add: unat_of_nat)
  with rd sp show "\<exists>i s'. read s fd buffer sz ret = Inr (of_nat i, s') \<and>
               i \<le> unat sz \<and> unat (of_nat i :: 32 word) = i \<and>
               (\<forall>j < i. keys s (keys_taken s + j) \<noteq> 0) \<and>
               ((i = unat sz \<and> keys_taken s' = keys_taken s + i) \<or>
                (i < unat sz \<and> keys s (keys_taken s + i) = 0 \<and>
                 keys_taken s' = keys_taken s + i + 1)) \<and>
               umem s' = (\<lambda>a. if buffer \<le> a \<and> a < buffer + (keys_taken s' - keys_taken s)
                               then keys s (keys_taken s + (a - buffer)) else umem s a) \<and>
               s'\<lparr>umem := umem s, keys_taken := keys_taken s\<rparr> = s"
    by blast
qed

theorem read_stdin_witness:
  "check_address demo_state 4096 = Inr () \<and> process_get_file demo_state 0 = STDIN \<and>
   stdin_count demo_state \<noteq> 0 \<and>
   (\<exists>s'. read demo_state 0 4096 5 0 = Inr (3, s') \<and>
         keys demo_state (keys_taken demo_state + 3) = 0 \<and>
         keys_taken s' = keys_taken demo_state + 3 + 1 \<and>
         umem s' 4099 = 0 \<and> umem s' 4100 = umem demo_state 4100)"
proof -
  have h: "check_address demo_state 4096 = Inr ()" "process_get_file demo_state 0 = STDIN"
    "stdin_count demo_state \<noteq> 0"
    by (simp_all add: demo_state_def io_defs)
  have ev: "\<exists>s'. read demo_state 0 4096 5 0 = Inr (3, s')"
    by (simp add: demo_state_def io_defs getc_loop.simps)
  from read_stdin [OF h(1,2), of 5 0] h(3) obtain i s'
    where r: "read demo_state 0 4096 5 0 = Inr (of_nat i, s')"
      and u: "unat (of_nat i :: 32 word) = i"
      and k: "(i = unat (5 :: 32 word) \<and> keys_taken s' = keys_taken demo_state + i) \<or>
              (i < unat (5 :: 32 word) \<and> keys demo_state (keys_taken demo_state + i) = 0 \<and>
               keys_taken s' = keys_taken demo_state + i + 1)"
      and m: "umem s' = (\<lambda>a. if 4096 \<le> a \<and> a < 4096 + (keys_taken s' - keys_taken demo_state)
                             then keys demo_state (keys_taken demo_state + (a - 4096))
                             else umem demo_state a)"
    by blast
  from ev r have "(of_nat i :: 32 word) = 3" by auto
  with u have "i = unat (3 :: 32 word)" by simp
  then have i: "i = 3" by simp
  from k i have k': "keys demo_state (keys_taken demo_state + 3) = 0"
    "keys_taken s' = keys_taken demo_state + 3 + 1" by auto
  have "umem s' 4099 = 0" "umem s' 4100 = umem demo_state 4100"
    unfolding m k' by (simp_all add: demo_state_def)
  with r i k' h show ?thesis by auto
qed

text \<open>
  The claim as stated fails on the count: with the keys \<^verbatim>\<open>A A A 0\<close> and \<^verbatim>\<open>size\<close> 5, four
  keys are taken and four bytes stored, and 3 is returned.
\<close>

theorem read_stdin_counterexample:
  "check_address demo_state 4096 = Inr () \<and> process_get_file demo_state 0 = STDIN \<and>
   stdin_count demo_state \<noteq> 0 \<and>
   map (umem demo_state) [4096 ..< 4101] = [255, 255, 255, 255, 255] \<and>
   (case read demo_state 0 4096 5 0 of
      Inl e \<Rightarrow> False
    | Inr (r, s) \<Rightarrow> r = 3 \<and> keys_taken s = keys_taken demo_state + 4 \<and>
                    map (umem s) [4096 ..< 4101] = [65, 65, 65, 0, 255])"
  by (simp add: demo_state_def io_defs getc_loop.simps upt_rec)

text \<open>The value of the \<^verbatim>\<open>int\<close> that has the bits of an \<^verbatim>\<open>unsigned\<close> length.\<close>

lemma sint_length:
  "sint (sz :: 32 word) = (if unat sz < 2 ^ 31 then int (unat sz) else int (unat sz) - 2 ^ 32)"
proof -
  define n where "n = unat sz"
  have n: "n < 2 ^ 32"
    unfolding n_def using unsigned_less [where 'b = 32 and 'a = nat, of sz] by simp
  then have n': "int n < 4294967296" by simp
  have un: "uint sz = int n" by (simp add: n_def)
  have "sint sz = signed_take_bit 31 (uint sz)" by (simp add: sint_uint)
  also have "\<dots> = (int n + 2147483648) mod 4294967296 - 2147483648"
    unfolding un by (simp add: signed_take_bit_eq_take_bit_shift take_bit_eq_mod)
  finally have s: "sint sz = (int n + 2147483648) mod 4294967296 - 2147483648" .
  have "sint sz = (if n < 2 ^ 31 then int n else int n - 2 ^ 32)"
  proof (cases "n < 2 ^ 31")
    case True
    then have "int n < 2147483648" by simp
    then have "(int n + 2147483648) mod 4294967296 = int n + 2147483648"
      by (intro mod_pos_pos_trivial) linarith+
    with True s show ?thesis by simp
  next
    case False
    then have ge: "2147483648 \<le> int n" by simp
    have "(int n + 2147483648) mod 4294967296 = (int n + 2147483648 - 4294967296) mod 4294967296"
      by (simp only: minus_mod_self2)
    also from ge n' have "\<dots> = int n + 2147483648 - 4294967296"
      by (intro mod_pos_pos_trivial) linarith+
    finally show ?thesis using False s by simp
  qed
  then show ?thesis by (simp only: n_def)
qed

text \<open>
  Claim C7. For a descriptor that resolves to the output stream with a non-zero open
  count: with a buffer that passes the address validator, \<^verbatim>\<open>write\<close> makes one call,
  \<^verbatim>\<open>putbuf\<close> with the \<^verbatim>\<open>size\<close> bytes at \<^verbatim>\<open>buffer\<close> (the filesystem lock is neither acquired
  nor released), and returns \<^verbatim>\<open>size\<close> converted to \<^verbatim>\<open>int\<close>: the requested length when it is
  below \<open>2\<^sup>3\<^sup>1\<close>, and the length minus \<open>2\<^sup>3\<^sup>2\<close>, a negative number, from there on. With a
  buffer the validator refuses, the process is terminated by \<^verbatim>\<open>exit(-1)\<close>, before any
  call, and nothing is returned.
\<close>

theorem write_stdout:
  assumes fd: "process_get_file s fd = STDOUT" and nz: "stdout_count s \<noteq> 0"
  shows "(check_address s buffer = Inr () \<longrightarrow>
            (\<exists>r. sys_write s fd buffer sz ret =
                    Inr (r, s\<lparr>events := events s @
                                [Putbuf (map (umem s) [buffer ..< buffer + unat sz])]\<rparr>) \<and>
                 r = sz \<and>
                 (unat sz < 2 ^ 31 \<longrightarrow> sint r = int (unat sz)) \<and>
                 (2 ^ 31 \<le> unat sz \<longrightarrow> sint r = int (unat sz) - 2 ^ 32 \<and> sint r < 0))) \<and>
         (check_address s buffer \<noteq> Inr () \<longrightarrow>
            sys_write s fd buffer sz ret = Inl (Exit (- 1)))"
proof (intro conjI impI)
  assume ca: "check_address s buffer = Inr ()"
  have eq: "sys_write s fd buffer sz ret =
          Inr (sz, s\<lparr>events := events s @
                      [Putbuf (map (umem s) [buffer ..< buffer + unat sz])]\<rparr>)"
    using fd nz ca by (simp add: sys_write_def putbuf_def)
  have lt: "unat sz < 2 ^ 32"
    using unsigned_less [where 'b = 32 and 'a = nat, of sz] by simp
  have neg: "2 ^ 31 \<le> unat sz \<longrightarrow> sint sz = int (unat sz) - 2 ^ 32 \<and> sint sz < 0"
    using lt uint_lt2p [of sz] unfolding sint_length by auto
  have pos: "unat sz < 2 ^ 31 \<longrightarrow> sint sz = int (unat sz)"
    by (simp add: sint_length)
  from eq pos neg
  show "\<exists>r. sys_write s fd buffer sz ret =
                    Inr (r, s\<lparr>events := events s @
                                [Putbuf (map (umem s) [buffer ..< buffer + unat sz])]\<rparr>) \<and>
                 r = sz \<and>
                 (unat sz < 2 ^ 31 \<longrightarrow> sint r = int (unat sz)) \<and>
                 (2 ^ 31 \<le> unat sz \<longrightarrow> sint r = int (unat sz) - 2 ^ 32 \<and> sint r < 0)"
    by (intro exI [of _ sz]) (simp only: simp_thms)
next
  assume "check_address s buffer \<noteq> Inr ()"
  then show "sys_write s fd buffer sz ret = Inl (Exit (- 1))"
    by (auto simp: sys_write_def check_address_def)
qed

theorem write_stdout_witness:
  "process_get_file demo_state 1 = STDOUT \<and> stdout_count demo_state \<noteq> 0 \<and>
   check_address demo_state 4096 = Inr () \<and>
   sys_write demo_state 1 4096 3 0 =
     Inr (3, demo_state\<lparr>events := [Putbuf [255, 255, 255]]\<rparr>) \<and>
   sint (3 :: 32 word) = 3"
proof -
  have h: "process_get_file demo_state 1 = STDOUT" "stdout_count demo_state \<noteq> 0"
    "check_address demo_state 4096 = Inr ()"
    by (simp_all add: demo_state_def io_defs)
  from write_stdout [OF h(1,2), of 4096 3 0] h(3)
  have "sys_write demo_state 1 4096 3 0 =
          Inr (3, demo_state\<lparr>events := events demo_state @
                 [Putbuf (map (umem demo_state) [4096 ..< 4096 + unat (3 :: 32 word)])]\<rparr>)"
    by simp
  moreover have "events demo_state @
                 [Putbuf (map (umem demo_state) [4096 ..< 4096 + unat (3 :: 32 word)])] =
                 [Putbuf [255, 255, 255]]"
    by (simp add: demo_state_def upt_rec)
  ultimately have a: "sys_write demo_state 1 4096 3 0 =
     Inr (3, demo_state\<lparr>events := [Putbuf [255, 255, 255]]\<rparr>)" by simp
  have b: "sint (3 :: 32 word) = 3" by simp
  from h a b show ?thesis by blast
qed

text \<open>
  The claim as stated fails for a buffer the validator refuses, here the null pointer:
  \<^verbatim>\<open>write\<close> does not return. And for the length \<open>2\<^sup>3\<^sup>2 - 1\<close> the \<^verbatim>\<open>int\<close> it returns is -1, not
  the requested length.
\<close>

theorem write_stdout_counterexample:
  "process_get_file demo_state 1 = STDOUT \<and> stdout_count demo_state \<noteq> 0 \<and>
   sys_write demo_state 1 NULL 3 0 = Inl (Exit (- 1)) \<and>
   check_address demo_state 4096 = Inr () \<and>
   unat (4294967295 :: 32 word) = 4294967295 \<and>
   sys_write demo_state 1 4096 4294967295 0 =
     Inr (4294967295, putbuf demo_state 4096 4294967295) \<and>
   sint (4294967295 :: 32 word) = - 1"
  by (simp add: demo_state_def sys_write_def check_address_def is_user_vaddr_def
        process_get_file_def FDCOUNT_LIMIT_def)

text \<open>
  Claim C8. \<^verbatim>\<open>write\<close> on a descriptor that resolves to the input stream and \<^verbatim>\<open>read\<close> on one
  that resolves to the output stream: with a buffer that passes the address validator
  they return -1 and leave the whole state as it was (the table, both stream counters,
  the files and the record of calls); with a buffer the validator refuses, the process
  is terminated by \<^verbatim>\<open>exit(-1)\<close> and nothing is returned.
\<close>

theorem wrong_direction:
  "(process_get_file s fd = STDIN \<longrightarrow>
      sys_write s fd buffer sz ret =
        (if check_address s buffer = Inr () then Inr (- 1, s) else Inl (Exit (- 1)))) \<and>
   (process_get_file s fd = STDOUT \<longrightarrow>
      read s fd buffer sz ret =
        (if check_address s buffer = Inr () then Inr (- 1, s) else Inl (Exit (- 1))))"
  by (auto simp: sys_write_def read_def check_address_def)

theorem wrong_direction_witness:
  "check_address demo_state 4096 = Inr () \<and>
   process_get_file demo_state 0 = STDIN \<and> process_get_file demo_state 1 = STDOUT \<and>
   sys_write demo_state 0 4096 3 0 = Inr (- 1, demo_state) \<and>
   read demo_state 1 4096 3 0 = Inr (- 1, demo_state) \<and>
   sint (- 1 :: 32 word) = - 1"
proof -
  have h: "check_address demo_state 4096 = Inr ()"
    "process_get_file demo_state 0 = STDIN" "process_get_file demo_state 1 = STDOUT"
    by (simp_all add: demo_state_def io_defs)
  from wrong_direction [of demo_state 0 4096 3 0] wrong_direction [of demo_state 1 4096 3 0] h
  show ?thesis by simp
qed

text \<open>
  The claim as stated fails for a buffer the validator refuses, here the null pointer:
  neither call returns -1, the process is terminated.
\<close>

theorem wrong_direction_counterexample:
  "process_get_file demo_state 0 = STDIN \<and> process_get_file demo_state 1 = STDOUT \<and>
   check_address demo_state NULL = Inl (Exit (- 1)) \<and>
   sys_write demo_state 0 NULL 3 0 = Inl (Exit (- 1)) \<and>
   read demo_state 1 NULL 3 0 = Inl (Exit (- 1))"
  by (simp add: demo_state_def io_defs)


section \<open>Properties of the swap table\<close>

subsection \<open>Example states\<close>

text \<open>
  A swap table of three slots, the first taken, and one frame at kernel address 8192;
  the byte at a kernel address is the address modulo 256. \<open>full_vm\<close> is the same with
  every slot taken. \<open>demo_page\<close> is resident in the frame, \<open>bare_page\<close> has neither a
  frame nor a slot, \<open>swapped_page\<close> holds slot 0.
\<close>

definition demo_vm :: vm_state where
  "demo_vm =
     \<lparr>swap_table = [True, False, False], disk = (\<lambda>_ _. 0), kmem = (\<lambda>a. of_nat a),
      frames = (\<lambda>_. None)(7000 \<mapsto> \<lparr>kva = 8192\<rparr>), frame_list = [7000], vm_trace = []\<rparr>"

definition full_vm :: vm_state where
  "full_vm = demo_vm\<lparr>swap_table := [True, True, True]\<rparr>"

definition demo_page :: page where
  "demo_page =
     \<lparr>va = 4096, frame = 7000, anon = \<lparr>owner = 500, swap_slot_idx = INVALID_SLOT_IDX\<rparr>\<rparr>"

definition bare_page :: page where
  "bare_page = demo_page\<lparr>frame := NULL\<rparr>"


subsection \<open>The sector loops\<close>

lemma SECTORS_PER_PAGE_8: "SECTORS_PER_PAGE = 8"
  by (simp add: SECTORS_PER_PAGE_def CEILING_def PGSIZE_def DISK_SECTOR_SIZE_def)

lemma page_sectors: "SECTORS_PER_PAGE * DISK_SECTOR_SIZE = PGSIZE"
  by (simp add: SECTORS_PER_PAGE_def CEILING_def PGSIZE_def DISK_SECTOR_SIZE_def)

lemma sector_pos: "0 < DISK_SECTOR_SIZE"
  by (simp add: DISK_SECTOR_SIZE_def)

lemma vm_anon_init_wf: "num_sector < 2 ^ 32 \<Longrightarrow> swap_wf (vm_anon_init s num_sector)"
proof -
  assume lt: "num_sector < 2 ^ 32"
  have "num_sector div SECTORS_PER_PAGE * SECTORS_PER_PAGE \<le> num_sector" by simp
  with lt have "num_sector div SECTORS_PER_PAGE * SECTORS_PER_PAGE \<le> 2 ^ 32"
    by (meson le_less_trans less_imp_le)
  then show ?thesis by (simp add: swap_wf_def vm_anon_init_def Let_def)
qed

lemma bitmap_scan_Some:
  "bitmap_scan b = Some k \<Longrightarrow> k < length b \<and> \<not> b ! k \<and> (\<forall>j < k. b ! j)"
proof (induction b arbitrary: k)
  case Nil
  then show ?case by simp
next
  case (Cons x b)
  show ?case
  proof (cases x)
    case False
    with Cons.prems show ?thesis by simp
  next
    case True
    with Cons.prems obtain k' where k': "bitmap_scan b = Some k'" "k = Suc k'" by auto
    from Cons.IH [OF k'(1)] k'(2) True show ?thesis by (auto simp: less_Suc_eq_0_disj)
  qed
qed

lemma bitmap_scan_None: "bitmap_scan b = None \<longleftrightarrow> (\<forall>x \<in> set b. x)"
  by (induction b) auto

lemma sec_no_exact:
  assumes "(slot + 1) * SECTORS_PER_PAGE \<le> 2 ^ 32" and "i < SECTORS_PER_PAGE"
  shows "sec_no slot i = slot * SECTORS_PER_PAGE + i"
proof -
  from assms have "slot * SECTORS_PER_PAGE + i < 2 ^ 32" by simp
  moreover from this have "slot * SECTORS_PER_PAGE < 2 ^ 32" by simp
  ultimately show ?thesis by (simp add: sec_no_def)
qed

lemma slot_fits:
  "swap_wf s \<Longrightarrow> k < length (swap_table s) \<Longrightarrow> (k + 1) * SECTORS_PER_PAGE \<le> 2 ^ 32"
proof -
  assume wf: "swap_wf s" and k: "k < length (swap_table s)"
  then have "(k + 1) * SECTORS_PER_PAGE \<le> length (swap_table s) * SECTORS_PER_PAGE"
    by (intro mult_le_mono1) simp
  with wf show ?thesis by (simp add: swap_wf_def)
qed

lemma swap_out_loop_spec:
  assumes fit: "(slot + 1) * SECTORS_PER_PAGE \<le> 2 ^ 32"
  shows "swap_out_loop s slot kv i =
           s\<lparr>disk := (\<lambda>sec ofs.
                  if slot * SECTORS_PER_PAGE + i \<le> sec \<and>
                     sec < slot * SECTORS_PER_PAGE + SECTORS_PER_PAGE \<and> ofs < DISK_SECTOR_SIZE
                  then kmem s (kv + (sec - slot * SECTORS_PER_PAGE) * DISK_SECTOR_SIZE + ofs)
                  else disk s sec ofs),
             vm_trace := vm_trace s @
               map (\<lambda>j. DiskWrite (slot * SECTORS_PER_PAGE + j) (kv + j * DISK_SECTOR_SIZE))
                 [i ..< SECTORS_PER_PAGE]\<rparr>"
  using fit
proof (induction s slot kv i rule: swap_out_loop.induct)
  case (1 s slot kv i)
  show ?case
  proof (cases "i < SECTORS_PER_PAGE")
    case False
    then have "swap_out_loop s slot kv i = s" by (simp add: swap_out_loop.simps)
    moreover have "(\<lambda>sec ofs.
                  if slot * SECTORS_PER_PAGE + i \<le> sec \<and>
                     sec < slot * SECTORS_PER_PAGE + SECTORS_PER_PAGE \<and> ofs < DISK_SECTOR_SIZE
                  then kmem s (kv + (sec - slot * SECTORS_PER_PAGE) * DISK_SECTOR_SIZE + ofs)
                  else disk s sec ofs) = disk s"
      using False by (auto simp: fun_eq_iff)
    ultimately show ?thesis using False by simp
  next
    case True
    let ?b = "slot * SECTORS_PER_PAGE"
    let ?s1 = "disk_write s (sec_no slot i) (kv + i * DISK_SECTOR_SIZE)"
    have sn: "sec_no slot i = ?b + i" by (rule sec_no_exact [OF "1.prems" True])
    have un: "swap_out_loop s slot kv i = swap_out_loop ?s1 slot kv (i + 1)"
      using True by (subst swap_out_loop.simps) simp
    have k1: "kmem ?s1 = kmem s" by (simp add: disk_write_def)
    have d1: "disk ?s1 = (disk s)(?b + i := (\<lambda>ofs. if ofs < DISK_SECTOR_SIZE
                 then kmem s (kv + i * DISK_SECTOR_SIZE + ofs) else disk s (?b + i) ofs))"
      by (simp add: disk_write_def sn)
    have t1: "vm_trace ?s1 = vm_trace s @ [DiskWrite (?b + i) (kv + i * DISK_SECTOR_SIZE)]"
      by (simp add: disk_write_def sn)
    have up: "[i ..< SECTORS_PER_PAGE] = i # [i + 1 ..< SECTORS_PER_PAGE]"
      using True by (simp add: upt_conv_Cons)
    have dd: "(\<lambda>sec ofs.
                  if ?b + (i + 1) \<le> sec \<and> sec < ?b + SECTORS_PER_PAGE \<and> ofs < DISK_SECTOR_SIZE
                  then kmem ?s1 (kv + (sec - ?b) * DISK_SECTOR_SIZE + ofs)
                  else disk ?s1 sec ofs) =
              (\<lambda>sec ofs.
                  if ?b + i \<le> sec \<and> sec < ?b + SECTORS_PER_PAGE \<and> ofs < DISK_SECTOR_SIZE
                  then kmem s (kv + (sec - ?b) * DISK_SECTOR_SIZE + ofs)
                  else disk s sec ofs)"
      unfolding k1 d1 using True by (auto simp: fun_eq_iff)
    have rest: "s\<lparr>disk := disk ?s1, vm_trace := vm_trace ?s1\<rparr> = ?s1"
      by (simp add: disk_write_def)
    from "1.IH" [OF True "1.prems"]
    have "swap_out_loop ?s1 slot kv (i + 1) =
            ?s1\<lparr>disk := (\<lambda>sec ofs.
                  if ?b + (i + 1) \<le> sec \<and> sec < ?b + SECTORS_PER_PAGE \<and> ofs < DISK_SECTOR_SIZE
                  then kmem ?s1 (kv + (sec - ?b) * DISK_SECTOR_SIZE + ofs)
                  else disk ?s1 sec ofs),
              vm_trace := vm_trace ?s1 @
               map (\<lambda>j. DiskWrite (?b + j) (kv + j * DISK_SECTOR_SIZE))
                 [i + 1 ..< SECTORS_PER_PAGE]\<rparr>" .
    also have "\<dots> = s\<lparr>disk := (\<lambda>sec ofs.
                  if ?b + i \<le> sec \<and> sec < ?b + SECTORS_PER_PAGE \<and> ofs < DISK_SECTOR_SIZE
                  then kmem s (kv + (sec - ?b) * DISK_SECTOR_SIZE + ofs)
                  else disk s sec ofs),
             vm_trace := vm_trace s @
               map (\<lambda>j. DiskWrite (?b + j) (kv + j * DISK_SECTOR_SIZE))
                 [i ..< SECTORS_PER_PAGE]\<rparr>"
      unfolding dd t1 up by (simp add: disk_write_def)
    finally show ?thesis using un by simp
  qed
qed


lemma in_sector:
  assumes "kv + i * D \<le> a" and "a < kv + i * D + D"
  shows "(a - kv) div D = i \<and> (a - kv) mod D = a - (kv + i * (D::nat))"
proof -
  from assms(1) obtain r where r: "a = kv + i * D + r" using le_Suc_ex by blast
  with assms(2) have rD: "r < D" by simp
  have e1: "a - kv = r + i * D" using r by simp
  have e2: "a - (kv + i * D) = r" using r by simp
  have "(r + i * D) div D = i" using rD by simp
  moreover have "(r + i * D) mod D = r" using rD by simp
  ultimately show ?thesis unfolding e1 e2 by blast
qed

lemma swap_in_loop_spec:
  assumes fit: "(slot + 1) * SECTORS_PER_PAGE \<le> 2 ^ 32"
  shows "swap_in_loop s slot kv i =
           s\<lparr>kmem := (\<lambda>a.
                  if kv + i * DISK_SECTOR_SIZE \<le> a \<and>
                     a < kv + SECTORS_PER_PAGE * DISK_SECTOR_SIZE
                  then disk s (slot * SECTORS_PER_PAGE + (a - kv) div DISK_SECTOR_SIZE)
                         ((a - kv) mod DISK_SECTOR_SIZE)
                  else kmem s a),
             vm_trace := vm_trace s @
               map (\<lambda>j. DiskRead (slot * SECTORS_PER_PAGE + j) (kv + j * DISK_SECTOR_SIZE))
                 [i ..< SECTORS_PER_PAGE]\<rparr>"
  using fit
proof (induction s slot kv i rule: swap_in_loop.induct)
  case (1 s slot kv i)
  let ?b = "slot * SECTORS_PER_PAGE"
  let ?D = "DISK_SECTOR_SIZE"
  show ?case
  proof (cases "i < SECTORS_PER_PAGE")
    case False
    then have "swap_in_loop s slot kv i = s" by (simp add: swap_in_loop.simps)
    moreover have "(\<lambda>a. if kv + i * ?D \<le> a \<and> a < kv + SECTORS_PER_PAGE * ?D
                  then disk s (?b + (a - kv) div ?D) ((a - kv) mod ?D)
                  else kmem s a) = kmem s"
    proof
      fix a
      from False have "SECTORS_PER_PAGE * ?D \<le> i * ?D" by (intro mult_le_mono1) simp
      then have "\<not> (kv + i * ?D \<le> a \<and> a < kv + SECTORS_PER_PAGE * ?D)" by linarith
      then show "(if kv + i * ?D \<le> a \<and> a < kv + SECTORS_PER_PAGE * ?D
                  then disk s (?b + (a - kv) div ?D) ((a - kv) mod ?D)
                  else kmem s a) = kmem s a" by auto
    qed
    ultimately show ?thesis using False by simp
  next
    case True
    let ?s1 = "disk_read s (sec_no slot i) (kv + i * ?D)"
    have sn: "sec_no slot i = ?b + i" by (rule sec_no_exact [OF "1.prems" True])
    have un: "swap_in_loop s slot kv i = swap_in_loop ?s1 slot kv (i + 1)"
      using True by (subst swap_in_loop.simps) simp
    have d1: "disk ?s1 = disk s" by (simp add: disk_read_def)
    have k1: "kmem ?s1 = (\<lambda>a. if kv + i * ?D \<le> a \<and> a < kv + i * ?D + ?D
                               then disk s (?b + i) (a - (kv + i * ?D)) else kmem s a)"
      by (simp add: disk_read_def sn)
    have t1: "vm_trace ?s1 = vm_trace s @ [DiskRead (?b + i) (kv + i * ?D)]"
      by (simp add: disk_read_def sn)
    have up: "[i ..< SECTORS_PER_PAGE] = i # [i + 1 ..< SECTORS_PER_PAGE]"
      using True by (simp add: upt_conv_Cons)
    have le: "kv + i * ?D + ?D \<le> kv + SECTORS_PER_PAGE * ?D"
    proof -
      from True have "i + 1 \<le> SECTORS_PER_PAGE" by simp
      then have "(i + 1) * ?D \<le> SECTORS_PER_PAGE * ?D" by (rule mult_le_mono1)
      then show ?thesis by simp
    qed
    have dd: "(\<lambda>a. if kv + (i + 1) * ?D \<le> a \<and> a < kv + SECTORS_PER_PAGE * ?D
                  then disk ?s1 (?b + (a - kv) div ?D) ((a - kv) mod ?D)
                  else kmem ?s1 a) =
              (\<lambda>a. if kv + i * ?D \<le> a \<and> a < kv + SECTORS_PER_PAGE * ?D
                  then disk s (?b + (a - kv) div ?D) ((a - kv) mod ?D)
                  else kmem s a)"
    proof
      fix a
      show "(if kv + (i + 1) * ?D \<le> a \<and> a < kv + SECTORS_PER_PAGE * ?D
                  then disk ?s1 (?b + (a - kv) div ?D) ((a - kv) mod ?D)
                  else kmem ?s1 a) =
              (if kv + i * ?D \<le> a \<and> a < kv + SECTORS_PER_PAGE * ?D
                  then disk s (?b + (a - kv) div ?D) ((a - kv) mod ?D)
                  else kmem s a)"
      proof (cases "kv + i * ?D \<le> a \<and> a < kv + i * ?D + ?D")
        case True
        then have lo: "kv + i * ?D \<le> a" and hi: "a < kv + i * ?D + ?D" by simp_all
        have sd: "(i + 1) * ?D = i * ?D + ?D" by simp
        from in_sector [OF lo hi]
        have dv: "(a - kv) div ?D = i" "(a - kv) mod ?D = a - (kv + i * ?D)" by simp_all
        have "\<not> kv + (i + 1) * ?D \<le> a" unfolding sd using hi by linarith
        then have c1: "(kv + (i + 1) * ?D \<le> a \<and> a < kv + SECTORS_PER_PAGE * ?D) = False"
          by blast
        have "a < kv + SECTORS_PER_PAGE * ?D" using hi le by linarith
        with lo have c2: "(kv + i * ?D \<le> a \<and> a < kv + SECTORS_PER_PAGE * ?D) = True"
          by blast
        have km: "kmem ?s1 a = disk s (?b + i) (a - (kv + i * ?D))"
          unfolding k1 using lo hi by simp
        show ?thesis by (simp only: c1 c2 km dv if_True if_False)
      next
        case False
        have sd: "(i + 1) * ?D = i * ?D + ?D" by simp
        from False have "a < kv + i * ?D \<or> kv + i * ?D + ?D \<le> a" by linarith
        then have "kv + (i + 1) * ?D \<le> a \<longleftrightarrow> kv + i * ?D \<le> a"
        proof
          assume "a < kv + i * ?D"
          then have "\<not> kv + (i + 1) * ?D \<le> a" "\<not> kv + i * ?D \<le> a"
            unfolding sd by linarith+
          then show ?thesis by blast
        next
          assume "kv + i * ?D + ?D \<le> a"
          then have "kv + (i + 1) * ?D \<le> a" "kv + i * ?D \<le> a"
            unfolding sd by linarith+
          then show ?thesis by blast
        qed
        then have e1: "(kv + (i + 1) * ?D \<le> a \<and> a < kv + SECTORS_PER_PAGE * ?D) =
                  (kv + i * ?D \<le> a \<and> a < kv + SECTORS_PER_PAGE * ?D)" by blast
        have km: "kmem ?s1 a = kmem s a"
          unfolding k1 using False by auto
        show ?thesis by (simp only: e1 km d1)
      qed
    qed
    from "1.IH" [OF True "1.prems"]
    have "swap_in_loop ?s1 slot kv (i + 1) =
            ?s1\<lparr>kmem := (\<lambda>a. if kv + (i + 1) * ?D \<le> a \<and> a < kv + SECTORS_PER_PAGE * ?D
                  then disk ?s1 (?b + (a - kv) div ?D) ((a - kv) mod ?D)
                  else kmem ?s1 a),
              vm_trace := vm_trace ?s1 @
               map (\<lambda>j. DiskRead (?b + j) (kv + j * ?D)) [i + 1 ..< SECTORS_PER_PAGE]\<rparr>" .
    also have "\<dots> = s\<lparr>kmem := (\<lambda>a. if kv + i * ?D \<le> a \<and> a < kv + SECTORS_PER_PAGE * ?D
                  then disk s (?b + (a - kv) div ?D) ((a - kv) mod ?D)
                  else kmem s a),
             vm_trace := vm_trace s @
               map (\<lambda>j. DiskRead (?b + j) (kv + j * ?D)) [i ..< SECTORS_PER_PAGE]\<rparr>"
      unfolding dd t1 up by (simp add: disk_read_def)
    finally show ?thesis using un by simp
  qed
qed


lemma scan_and_flip_Some:
  "bitmap_scan b = Some k \<Longrightarrow> bitmap_scan_and_flip b = (k, b[k := True])"
  by (simp add: bitmap_scan_and_flip_def)

lemma scan_and_flip_None:
  "bitmap_scan b = None \<Longrightarrow> bitmap_scan_and_flip b = (BITMAP_ERROR, b)"
  by (simp add: bitmap_scan_and_flip_def)

lemma slot_small:
  assumes wf: "swap_wf s" and k: "k < length (swap_table s)"
  shows "k \<noteq> BITMAP_ERROR \<and> k \<noteq> INVALID_SLOT_IDX"
proof -
  from slot_fits [OF wf k] have "(k + 1) * 8 \<le> (2 :: nat) ^ 32" by (simp add: SECTORS_PER_PAGE_8)
  then have "k < (2 :: nat) ^ 32" by simp
  also have "(2 :: nat) ^ 32 < 2 ^ 64 - 1" by simp
  finally show ?thesis by (simp add: BITMAP_ERROR_def INVALID_SLOT_IDX_def)
qed

lemma swap_out_full:
  "bitmap_scan (swap_table s) = None \<Longrightarrow> anon_swap_out s page = Inl Panic"
  by (simp add: anon_swap_out_def scan_and_flip_None)

lemma no_frame_result:
  assumes wf: "swap_wf s" and k: "bitmap_scan (swap_table s) = Some k"
    and nf: "frame pg = NULL \<or> (\<exists>fr. frames s (frame pg) = Some fr \<and> kva fr = NULL)"
  shows "anon_swap_out s (Some pg) =
           Inr (False, s\<lparr>swap_table := (swap_table s)[k := True]\<rparr>, Some pg)"
proof -
  from bitmap_scan_Some [OF k] have kl: "k < length (swap_table s)" by simp
  from slot_small [OF wf kl] have ne: "k \<noteq> BITMAP_ERROR" by simp
  from nf show ?thesis
    by (auto simp: anon_swap_out_def scan_and_flip_Some [OF k] ne Let_def)
qed

lemma swap_out_eq:
  assumes wf: "swap_wf s" and k: "bitmap_scan (swap_table s) = Some k"
    and fr: "frame pg \<noteq> NULL" "frames s (frame pg) = Some fr" "kva fr \<noteq> NULL"
  shows "anon_swap_out s (Some pg) =
           Inr (True,
                pml4_set_dirty
                  (pml4_clear_page
                    (swap_out_loop (s\<lparr>swap_table := (swap_table s)[k := True]\<rparr>) k (kva fr) 0)
                    (owner (anon pg)) (va pg))
                  (owner (anon pg)) (va pg) False,
                Some (pg\<lparr>anon := (anon pg)\<lparr>swap_slot_idx := k\<rparr>, frame := NULL\<rparr>))"
proof -
  from bitmap_scan_Some [OF k] have kl: "k < length (swap_table s)" by simp
  from slot_small [OF wf kl] have ne: "k \<noteq> BITMAP_ERROR" by simp
  from fr show ?thesis
    by (simp add: anon_swap_out_def scan_and_flip_Some [OF k] ne Let_def)
qed

lemma div_mod_sector:
  assumes "x < PGSIZE"
  shows "x div DISK_SECTOR_SIZE < SECTORS_PER_PAGE \<and> x mod DISK_SECTOR_SIZE < DISK_SECTOR_SIZE \<and>
         x div DISK_SECTOR_SIZE * DISK_SECTOR_SIZE + x mod DISK_SECTOR_SIZE = x"
proof -
  from assms have "x < SECTORS_PER_PAGE * DISK_SECTOR_SIZE" by (simp add: page_sectors)
  then have "x div DISK_SECTOR_SIZE < SECTORS_PER_PAGE"
    using sector_pos by (simp add: less_mult_imp_div_less)
  moreover have "x mod DISK_SECTOR_SIZE < DISK_SECTOR_SIZE" using sector_pos by simp
  ultimately show ?thesis by simp
qed

lemma swap_out_state:
  assumes fit: "(k + 1) * SECTORS_PER_PAGE \<le> 2 ^ 32"
    and s1_def: "s1 = pml4_set_dirty (pml4_clear_page (swap_out_loop s0 k kv 0) thr upage) thr upage False"
  shows "swap_table s1 = swap_table s0" and "kmem s1 = kmem s0" and "frames s1 = frames s0"
    and "frame_list s1 = frame_list s0"
    and "vm_trace s1 = vm_trace s0 @
           map (\<lambda>i. DiskWrite (k * SECTORS_PER_PAGE + i) (kv + i * DISK_SECTOR_SIZE))
             [0 ..< SECTORS_PER_PAGE] @
           [Pml4ClearPage thr upage, Pml4SetDirty thr upage False]"
    and "\<forall>x < PGSIZE. disk s1 (k * SECTORS_PER_PAGE + x div DISK_SECTOR_SIZE)
                        (x mod DISK_SECTOR_SIZE) = kmem s0 (kv + x)"
proof -
  note sp = swap_out_loop_spec [OF fit, of s0 kv 0]
  show "swap_table s1 = swap_table s0" "kmem s1 = kmem s0" "frames s1 = frames s0"
    "frame_list s1 = frame_list s0"
    unfolding s1_def sp by (simp_all add: pml4_set_dirty_def pml4_clear_page_def)
  show "vm_trace s1 = vm_trace s0 @
           map (\<lambda>i. DiskWrite (k * SECTORS_PER_PAGE + i) (kv + i * DISK_SECTOR_SIZE))
             [0 ..< SECTORS_PER_PAGE] @
           [Pml4ClearPage thr upage, Pml4SetDirty thr upage False]"
    unfolding s1_def sp by (simp add: pml4_set_dirty_def pml4_clear_page_def)
  have d: "disk s1 = (\<lambda>sec ofs.
                  if k * SECTORS_PER_PAGE + 0 \<le> sec \<and>
                     sec < k * SECTORS_PER_PAGE + SECTORS_PER_PAGE \<and> ofs < DISK_SECTOR_SIZE
                  then kmem s0 (kv + (sec - k * SECTORS_PER_PAGE) * DISK_SECTOR_SIZE + ofs)
                  else disk s0 sec ofs)"
    unfolding s1_def sp by (simp add: pml4_set_dirty_def pml4_clear_page_def)
  show "\<forall>x < PGSIZE. disk s1 (k * SECTORS_PER_PAGE + x div DISK_SECTOR_SIZE)
                        (x mod DISK_SECTOR_SIZE) = kmem s0 (kv + x)"
  proof (intro allI impI)
    fix x assume "x < PGSIZE"
    from div_mod_sector [OF this]
    have a: "x div DISK_SECTOR_SIZE < SECTORS_PER_PAGE"
      and b: "x mod DISK_SECTOR_SIZE < DISK_SECTOR_SIZE"
      and c: "x div DISK_SECTOR_SIZE * DISK_SECTOR_SIZE + x mod DISK_SECTOR_SIZE = x" by auto
    have e: "kv + (k * SECTORS_PER_PAGE + x div DISK_SECTOR_SIZE - k * SECTORS_PER_PAGE) *
               DISK_SECTOR_SIZE + x mod DISK_SECTOR_SIZE = kv + x"
      using c by simp
    have "disk s1 (k * SECTORS_PER_PAGE + x div DISK_SECTOR_SIZE) (x mod DISK_SECTOR_SIZE) =
          kmem s0 (kv + (k * SECTORS_PER_PAGE + x div DISK_SECTOR_SIZE - k * SECTORS_PER_PAGE) *
               DISK_SECTOR_SIZE + x mod DISK_SECTOR_SIZE)"
      unfolding d using a b by simp
    then show "disk s1 (k * SECTORS_PER_PAGE + x div DISK_SECTOR_SIZE)
                     (x mod DISK_SECTOR_SIZE) = kmem s0 (kv + x)"
      by (simp only: e)
  qed
qed

lemma swap_in_state:
  assumes fit: "(k + 1) * SECTORS_PER_PAGE \<le> 2 ^ 32"
    and s2_def: "s2 = swap_in_loop s1 k kv 0"
  shows "swap_table s2 = swap_table s1" and "disk s2 = disk s1" and "frames s2 = frames s1"
    and "frame_list s2 = frame_list s1"
    and "vm_trace s2 = vm_trace s1 @
           map (\<lambda>i. DiskRead (k * SECTORS_PER_PAGE + i) (kv + i * DISK_SECTOR_SIZE))
             [0 ..< SECTORS_PER_PAGE]"
    and "\<forall>x < PGSIZE. kmem s2 (kv + x) =
           disk s1 (k * SECTORS_PER_PAGE + x div DISK_SECTOR_SIZE) (x mod DISK_SECTOR_SIZE)"
    and "\<forall>a. \<not> (kv \<le> a \<and> a < kv + PGSIZE) \<longrightarrow> kmem s2 a = kmem s1 a"
proof -
  note sp = swap_in_loop_spec [OF fit, of s1 kv 0]
  show "swap_table s2 = swap_table s1" "disk s2 = disk s1" "frames s2 = frames s1"
    "frame_list s2 = frame_list s1"
    unfolding s2_def sp by simp_all
  show "vm_trace s2 = vm_trace s1 @
           map (\<lambda>i. DiskRead (k * SECTORS_PER_PAGE + i) (kv + i * DISK_SECTOR_SIZE))
             [0 ..< SECTORS_PER_PAGE]"
    unfolding s2_def sp by simp
  have m: "kmem s2 = (\<lambda>a.
                  if kv + 0 * DISK_SECTOR_SIZE \<le> a \<and>
                     a < kv + SECTORS_PER_PAGE * DISK_SECTOR_SIZE
                  then disk s1 (k * SECTORS_PER_PAGE + (a - kv) div DISK_SECTOR_SIZE)
                         ((a - kv) mod DISK_SECTOR_SIZE)
                  else kmem s1 a)"
    unfolding s2_def sp by simp
  show "\<forall>x < PGSIZE. kmem s2 (kv + x) =
           disk s1 (k * SECTORS_PER_PAGE + x div DISK_SECTOR_SIZE) (x mod DISK_SECTOR_SIZE)"
    unfolding m by (simp add: page_sectors)
  show "\<forall>a. \<not> (kv \<le> a \<and> a < kv + PGSIZE) \<longrightarrow> kmem s2 a = kmem s1 a"
    unfolding m by (simp add: page_sectors)
qed

lemma page_restored:
  "(pg\<lparr>anon := (anon pg)\<lparr>swap_slot_idx := k\<rparr>, frame := NULL\<rparr>\<lparr>frame := f2\<rparr>)
           \<lparr>anon := (anon (pg\<lparr>anon := (anon pg)\<lparr>swap_slot_idx := k\<rparr>, frame := NULL\<rparr>\<lparr>frame := f2\<rparr>))
                      \<lparr>swap_slot_idx := INVALID_SLOT_IDX\<rparr>\<rparr> =
   pg\<lparr>frame := f2, anon := (anon pg)\<lparr>swap_slot_idx := INVALID_SLOT_IDX\<rparr>\<rparr>"
  by simp

lemma page_same:
  assumes "swap_slot_idx (anon pg) = INVALID_SLOT_IDX"
  shows "pg\<lparr>frame := f2, anon := (anon pg)\<lparr>swap_slot_idx := INVALID_SLOT_IDX\<rparr>\<rparr> = pg\<lparr>frame := f2\<rparr>"
proof -
  have "(anon pg)\<lparr>swap_slot_idx := INVALID_SLOT_IDX\<rparr> = anon pg"
    using assms by (cases "anon pg") simp
  then show ?thesis by simp
qed

lemma swap_in_eq:
  assumes "swap_slot_idx (anon pg) \<noteq> INVALID_SLOT_IDX"
  shows "anon_swap_in s pg kv =
           (True,
            (swap_in_loop s (swap_slot_idx (anon pg)) kv 0)
              \<lparr>swap_table := (swap_table (swap_in_loop s (swap_slot_idx (anon pg)) kv 0))
                                [swap_slot_idx (anon pg) := False]\<rparr>,
            pg\<lparr>anon := (anon pg)\<lparr>swap_slot_idx := INVALID_SLOT_IDX\<rparr>\<rparr>)"
  using assms by (simp add: anon_swap_in_def Let_def bitmap_set_def)

lemma demo_vm_wf: "swap_wf demo_vm" "swap_wf full_vm"
  by (simp_all add: swap_wf_def demo_vm_def full_vm_def SECTORS_PER_PAGE_8)

lemma demo_vm_scan: "bitmap_scan (swap_table demo_vm) = Some 1"
  "bitmap_scan (swap_table full_vm) = None"
  by (simp_all add: demo_vm_def full_vm_def)

subsection \<open>The round trip\<close>

text \<open>
  Claim C3, as the code has it. For a page whose frame is a live object with a non-null
  address, in a state whose swap table is one \<^verbatim>\<open>vm_anon_init\<close> can have made:
  \<^item> when no slot is free, \<^verbatim>\<open>anon_swap_out\<close> ends in the kernel panic;
  \<^item> otherwise it takes the first free slot \<open>k\<close>, sets bit \<open>k\<close> and no other, writes
    \<^verbatim>\<open>SECTORS_PER_PAGE\<close> sectors, the sectors \<open>k * SECTORS_PER_PAGE + i\<close>, from the
    consecutive sector-sized pieces of the frame, so that the slot holds the
    \<^verbatim>\<open>PGSIZE\<close> bytes of the frame; it records \<open>k\<close>, which is not the sentinel, in the
    page, clears the mapping and the frame pointer, and returns true;
  \<^item> \<^verbatim>\<open>anon_swap_in\<close> of that page, with any frame attached by the caller and any
    address \<open>kv2\<close>, reads exactly those sectors, after which the \<^verbatim>\<open>PGSIZE\<close> bytes at \<open>kv2\<close>
    are those the frame held and memory elsewhere is as it was; it clears bit \<open>k\<close>,
    so that the swap table is what it was before the swap-out, sets the slot id to
    the sentinel and returns true.
\<close>

theorem swap_round_trip:
  "(num_sector < 2 ^ 32 \<longrightarrow> swap_wf (vm_anon_init s0 num_sector)) \<and>
   swap_slot_idx (anon (snd (anon_initializer pg0 thr))) = INVALID_SLOT_IDX \<and>
   (swap_wf s \<and> frame pg \<noteq> NULL \<and> frames s (frame pg) = Some fr \<and> kva fr \<noteq> NULL \<longrightarrow>
    (bitmap_scan (swap_table s) = None \<longrightarrow> anon_swap_out s (Some pg) = Inl Panic) \<and>
    (\<forall>k. bitmap_scan (swap_table s) = Some k \<longrightarrow>
      (\<exists>s1 pg1. anon_swap_out s (Some pg) = Inr (True, s1, Some pg1) \<and>
         k < length (swap_table s) \<and> \<not> swap_table s ! k \<and> (\<forall>j < k. swap_table s ! j) \<and>
         swap_table s1 = (swap_table s)[k := True] \<and> swap_table s1 ! k \<and> swap_wf s1 \<and>
         pg1 = pg\<lparr>anon := (anon pg)\<lparr>swap_slot_idx := k\<rparr>, frame := NULL\<rparr> \<and>
         k \<noteq> INVALID_SLOT_IDX \<and>
         ((swap_slot_idx (anon pg1) = INVALID_SLOT_IDX) = (frame pg1 \<noteq> NULL)) \<and>
         vm_trace s1 = vm_trace s @
           map (\<lambda>i. DiskWrite (k * SECTORS_PER_PAGE + i) (kva fr + i * DISK_SECTOR_SIZE))
             [0 ..< SECTORS_PER_PAGE] @
           [Pml4ClearPage (owner (anon pg)) (va pg), Pml4SetDirty (owner (anon pg)) (va pg) False] \<and>
         (\<forall>x < PGSIZE. disk s1 (k * SECTORS_PER_PAGE + x div DISK_SECTOR_SIZE)
                          (x mod DISK_SECTOR_SIZE) = kmem s (kva fr + x)) \<and>
         kmem s1 = kmem s \<and> frames s1 = frames s \<and> frame_list s1 = frame_list s \<and>
         (\<forall>f2 kv2. \<exists>s2 pg3.
            anon_swap_in s1 (pg1\<lparr>frame := f2\<rparr>) kv2 = (True, s2, pg3) \<and>
            (\<forall>x < PGSIZE. kmem s2 (kv2 + x) = kmem s (kva fr + x)) \<and>
            (\<forall>a. \<not> (kv2 \<le> a \<and> a < kv2 + PGSIZE) \<longrightarrow> kmem s2 a = kmem s a) \<and>
            swap_table s2 = swap_table s \<and> \<not> swap_table s2 ! k \<and>
            pg3 = pg\<lparr>frame := f2, anon := (anon pg)\<lparr>swap_slot_idx := INVALID_SLOT_IDX\<rparr>\<rparr> \<and>
            (swap_slot_idx (anon pg) = INVALID_SLOT_IDX \<longrightarrow> pg3 = pg\<lparr>frame := f2\<rparr>) \<and>
            (f2 \<noteq> NULL \<longrightarrow>
               ((swap_slot_idx (anon pg3) = INVALID_SLOT_IDX) = (frame pg3 \<noteq> NULL))) \<and>
            disk s2 = disk s1 \<and>
            vm_trace s2 = vm_trace s1 @
              map (\<lambda>i. DiskRead (k * SECTORS_PER_PAGE + i) (kv2 + i * DISK_SECTOR_SIZE))
                [0 ..< SECTORS_PER_PAGE]))))"
  (is "_ \<and> _ \<and> (?hyp \<longrightarrow> ?concl)")
proof (intro conjI)
  show "num_sector < 2 ^ 32 \<longrightarrow> swap_wf (vm_anon_init s0 num_sector)"
    by (simp add: vm_anon_init_wf)
next
  show "swap_slot_idx (anon (snd (anon_initializer pg0 thr))) = INVALID_SLOT_IDX"
    by (simp add: anon_initializer_def)
next
  show "?hyp \<longrightarrow> ?concl"
  proof (intro impI, elim conjE)
  assume wf: "swap_wf s"
    and fr: "frame pg \<noteq> NULL" "frames s (frame pg) = Some fr" "kva fr \<noteq> NULL"
  show ?concl
proof (intro conjI impI allI)
  assume "bitmap_scan (swap_table s) = None"
  then show "anon_swap_out s (Some pg) = Inl Panic" by (rule swap_out_full)
next
  fix k assume k: "bitmap_scan (swap_table s) = Some k"
  from bitmap_scan_Some [OF k]
  have kl: "k < length (swap_table s)" and nk: "\<not> swap_table s ! k"
    and first: "\<forall>j < k. swap_table s ! j" by auto
  note fit = slot_fits [OF wf kl]
  from slot_small [OF wf kl] have kinv: "k \<noteq> INVALID_SLOT_IDX" by simp
  let ?s0 = "s\<lparr>swap_table := (swap_table s)[k := True]\<rparr>"
  let ?s1 = "pml4_set_dirty
               (pml4_clear_page (swap_out_loop ?s0 k (kva fr) 0) (owner (anon pg)) (va pg))
               (owner (anon pg)) (va pg) False"
  let ?pg1 = "pg\<lparr>anon := (anon pg)\<lparr>swap_slot_idx := k\<rparr>, frame := NULL\<rparr>"
  note out = swap_out_eq [OF wf k fr]
  note st = swap_out_state [of k _ ?s0 "kva fr" "owner (anon pg)" "va pg", OF fit refl]
  have t1: "swap_table ?s1 = (swap_table s)[k := True]" using st(1) by simp
  have k1: "kmem ?s1 = kmem s" using st(2) by simp
  have f1: "frames ?s1 = frames s" "frame_list ?s1 = frame_list s" using st(3,4) by simp_all
  have tr1: "vm_trace ?s1 = vm_trace s @
           map (\<lambda>i. DiskWrite (k * SECTORS_PER_PAGE + i) (kva fr + i * DISK_SECTOR_SIZE))
             [0 ..< SECTORS_PER_PAGE] @
           [Pml4ClearPage (owner (anon pg)) (va pg), Pml4SetDirty (owner (anon pg)) (va pg) False]"
    using st(5) by simp
  have d1: "\<forall>x < PGSIZE. disk ?s1 (k * SECTORS_PER_PAGE + x div DISK_SECTOR_SIZE)
                          (x mod DISK_SECTOR_SIZE) = kmem s (kva fr + x)"
    using st(6) by simp
  have inpart: "\<forall>f2 kv2. \<exists>s2 pg3.
            anon_swap_in ?s1 (?pg1\<lparr>frame := f2\<rparr>) kv2 = (True, s2, pg3) \<and>
            (\<forall>x < PGSIZE. kmem s2 (kv2 + x) = kmem s (kva fr + x)) \<and>
            (\<forall>a. \<not> (kv2 \<le> a \<and> a < kv2 + PGSIZE) \<longrightarrow> kmem s2 a = kmem s a) \<and>
            swap_table s2 = swap_table s \<and> \<not> swap_table s2 ! k \<and>
            pg3 = pg\<lparr>frame := f2, anon := (anon pg)\<lparr>swap_slot_idx := INVALID_SLOT_IDX\<rparr>\<rparr> \<and>
            (swap_slot_idx (anon pg) = INVALID_SLOT_IDX \<longrightarrow> pg3 = pg\<lparr>frame := f2\<rparr>) \<and>
            (f2 \<noteq> NULL \<longrightarrow>
               ((swap_slot_idx (anon pg3) = INVALID_SLOT_IDX) = (frame pg3 \<noteq> NULL))) \<and>
            disk s2 = disk ?s1 \<and>
            vm_trace s2 = vm_trace ?s1 @
              map (\<lambda>i. DiskRead (k * SECTORS_PER_PAGE + i) (kv2 + i * DISK_SECTOR_SIZE))
                [0 ..< SECTORS_PER_PAGE]"
  proof (intro allI)
    fix f2 kv2
    let ?pg2 = "?pg1\<lparr>frame := f2\<rparr>"
    let ?l = "swap_in_loop ?s1 k kv2 0"
    let ?s2 = "?l\<lparr>swap_table := (swap_table ?l)[k := False]\<rparr>"
    let ?pg3 = "?pg2\<lparr>anon := (anon ?pg2)\<lparr>swap_slot_idx := INVALID_SLOT_IDX\<rparr>\<rparr>"
    have slot2: "swap_slot_idx (anon ?pg2) = k" by simp
    with kinv have "swap_slot_idx (anon ?pg2) \<noteq> INVALID_SLOT_IDX" by simp
    from swap_in_eq [OF this, of ?s1 kv2]
    have eq: "anon_swap_in ?s1 ?pg2 kv2 = (True, ?s2, ?pg3)" by (simp only: slot2)
    note si = swap_in_state [of k _ ?s1 kv2, OF fit refl]
    have m: "\<forall>x < PGSIZE. kmem ?s2 (kv2 + x) = kmem s (kva fr + x)"
      using si(6) d1 by simp
    have m': "\<forall>a. \<not> (kv2 \<le> a \<and> a < kv2 + PGSIZE) \<longrightarrow> kmem ?s2 a = kmem s a"
      using si(7) k1 by simp
    have "(swap_table s)[k := True, k := False] = swap_table s"
      using kl nk by (simp add: list_update_same_conv)
    then have tb: "swap_table ?s2 = swap_table s" using si(1) t1 by simp
    have p3: "?pg3 = pg\<lparr>frame := f2, anon := (anon pg)\<lparr>swap_slot_idx := INVALID_SLOT_IDX\<rparr>\<rparr>"
      by (rule page_restored)
    have p3': "swap_slot_idx (anon pg) = INVALID_SLOT_IDX \<longrightarrow> ?pg3 = pg\<lparr>frame := f2\<rparr>"
      using p3 page_same [of pg f2] by simp
    have iff3: "f2 \<noteq> NULL \<longrightarrow>
               ((swap_slot_idx (anon ?pg3) = INVALID_SLOT_IDX) = (frame ?pg3 \<noteq> NULL))"
      by simp
    have dk: "disk ?s2 = disk ?s1" using si(2) by simp
    have tr: "vm_trace ?s2 = vm_trace ?s1 @
              map (\<lambda>i. DiskRead (k * SECTORS_PER_PAGE + i) (kv2 + i * DISK_SECTOR_SIZE))
                [0 ..< SECTORS_PER_PAGE]"
      using si(5) by simp
    from eq m m' tb nk p3 p3' iff3 dk tr
    show "\<exists>s2 pg3.
            anon_swap_in ?s1 ?pg2 kv2 = (True, s2, pg3) \<and>
            (\<forall>x < PGSIZE. kmem s2 (kv2 + x) = kmem s (kva fr + x)) \<and>
            (\<forall>a. \<not> (kv2 \<le> a \<and> a < kv2 + PGSIZE) \<longrightarrow> kmem s2 a = kmem s a) \<and>
            swap_table s2 = swap_table s \<and> \<not> swap_table s2 ! k \<and>
            pg3 = pg\<lparr>frame := f2, anon := (anon pg)\<lparr>swap_slot_idx := INVALID_SLOT_IDX\<rparr>\<rparr> \<and>
            (swap_slot_idx (anon pg) = INVALID_SLOT_IDX \<longrightarrow> pg3 = pg\<lparr>frame := f2\<rparr>) \<and>
            (f2 \<noteq> NULL \<longrightarrow>
               ((swap_slot_idx (anon pg3) = INVALID_SLOT_IDX) = (frame pg3 \<noteq> NULL))) \<and>
            disk s2 = disk ?s1 \<and>
            vm_trace s2 = vm_trace ?s1 @
              map (\<lambda>i. DiskRead (k * SECTORS_PER_PAGE + i) (kv2 + i * DISK_SECTOR_SIZE))
                [0 ..< SECTORS_PER_PAGE]"
      by (intro exI [of _ ?s2] exI [of _ ?pg3]) (simp only: simp_thms)
  qed
  have set1: "swap_table ?s1 ! k" using t1 kl by simp
  have wf1: "swap_wf ?s1" using wf t1 by (simp add: swap_wf_def)
  have iff1: "(swap_slot_idx (anon ?pg1) = INVALID_SLOT_IDX) = (frame ?pg1 \<noteq> NULL)"
    using kinv by simp
  from out kl nk first t1 set1 wf1 kinv iff1 tr1 d1 k1 f1 inpart
  show "\<exists>s1 pg1. anon_swap_out s (Some pg) = Inr (True, s1, Some pg1) \<and>
         k < length (swap_table s) \<and> \<not> swap_table s ! k \<and> (\<forall>j < k. swap_table s ! j) \<and>
         swap_table s1 = (swap_table s)[k := True] \<and> swap_table s1 ! k \<and> swap_wf s1 \<and>
         pg1 = pg\<lparr>anon := (anon pg)\<lparr>swap_slot_idx := k\<rparr>, frame := NULL\<rparr> \<and>
         k \<noteq> INVALID_SLOT_IDX \<and>
         ((swap_slot_idx (anon pg1) = INVALID_SLOT_IDX) = (frame pg1 \<noteq> NULL)) \<and>
         vm_trace s1 = vm_trace s @
           map (\<lambda>i. DiskWrite (k * SECTORS_PER_PAGE + i) (kva fr + i * DISK_SECTOR_SIZE))
             [0 ..< SECTORS_PER_PAGE] @
           [Pml4ClearPage (owner (anon pg)) (va pg), Pml4SetDirty (owner (anon pg)) (va pg) False] \<and>
         (\<forall>x < PGSIZE. disk s1 (k * SECTORS_PER_PAGE + x div DISK_SECTOR_SIZE)
                          (x mod DISK_SECTOR_SIZE) = kmem s (kva fr + x)) \<and>
         kmem s1 = kmem s \<and> frames s1 = frames s \<and> frame_list s1 = frame_list s \<and>
         (\<forall>f2 kv2. \<exists>s2 pg3.
            anon_swap_in s1 (pg1\<lparr>frame := f2\<rparr>) kv2 = (True, s2, pg3) \<and>
            (\<forall>x < PGSIZE. kmem s2 (kv2 + x) = kmem s (kva fr + x)) \<and>
            (\<forall>a. \<not> (kv2 \<le> a \<and> a < kv2 + PGSIZE) \<longrightarrow> kmem s2 a = kmem s a) \<and>
            swap_table s2 = swap_table s \<and> \<not> swap_table s2 ! k \<and>
            pg3 = pg\<lparr>frame := f2, anon := (anon pg)\<lparr>swap_slot_idx := INVALID_SLOT_IDX\<rparr>\<rparr> \<and>
            (swap_slot_idx (anon pg) = INVALID_SLOT_IDX \<longrightarrow> pg3 = pg\<lparr>frame := f2\<rparr>) \<and>
            (f2 \<noteq> NULL \<longrightarrow>
               ((swap_slot_idx (anon pg3) = INVALID_SLOT_IDX) = (frame pg3 \<noteq> NULL))) \<and>
            disk s2 = disk s1 \<and>
            vm_trace s2 = vm_trace s1 @
              map (\<lambda>i. DiskRead (k * SECTORS_PER_PAGE + i) (kv2 + i * DISK_SECTOR_SIZE))
                [0 ..< SECTORS_PER_PAGE])"
    by (intro exI [of _ ?s1] exI [of _ ?pg1]) (simp only: simp_thms)
qed
  qed
qed

theorem swap_round_trip_witness:
  "swap_wf demo_vm \<and> frame demo_page \<noteq> NULL \<and>
   frames demo_vm (frame demo_page) = Some \<lparr>kva = 8192\<rparr> \<and>
   bitmap_scan (swap_table demo_vm) = Some 1 \<and>
   (\<exists>s1 pg1. anon_swap_out demo_vm (Some demo_page) = Inr (True, s1, Some pg1) \<and>
      swap_table s1 = [True, True, False] \<and>
      swap_slot_idx (anon pg1) = 1 \<and> frame pg1 = NULL \<and>
      disk s1 8 0 = kmem demo_vm 8192 \<and> disk s1 15 511 = kmem demo_vm 12287 \<and>
      (\<exists>s2 pg3. anon_swap_in s1 (pg1\<lparr>frame := 7100\<rparr>) 12288 = (True, s2, pg3) \<and>
         kmem s2 12288 = kmem demo_vm 8192 \<and> kmem s2 16383 = kmem demo_vm 12287 \<and>
         swap_table s2 = [True, False, False] \<and> pg3 = demo_page\<lparr>frame := 7100\<rparr>))"
proof -
  have h: "swap_wf demo_vm" "frame demo_page \<noteq> NULL"
    "frames demo_vm (frame demo_page) = Some \<lparr>kva = 8192\<rparr>" "kva \<lparr>kva = 8192\<rparr> \<noteq> NULL"
    "bitmap_scan (swap_table demo_vm) = Some 1"
    "swap_slot_idx (anon demo_page) = INVALID_SLOT_IDX"
    by (simp_all add: demo_vm_wf demo_vm_scan) (simp_all add: demo_vm_def demo_page_def)
  have hyp: "swap_wf demo_vm \<and> frame demo_page \<noteq> NULL \<and>
      frames demo_vm (frame demo_page) = Some \<lparr>kva = 8192\<rparr> \<and> kva \<lparr>kva = 8192\<rparr> \<noteq> NULL"
    by (intro conjI) (rule h)+
  note rt = swap_round_trip [of 0 demo_vm demo_page 500 demo_vm demo_page "\<lparr>kva = 8192\<rparr>"]
  from rt [THEN conjunct2, THEN conjunct2, THEN mp, OF hyp, THEN conjunct2, THEN spec, THEN mp,
      OF h(5)]
  obtain s1 pg1 where out: "anon_swap_out demo_vm (Some demo_page) = Inr (True, s1, Some pg1)"
    and t1: "swap_table s1 = (swap_table demo_vm)[1 := True]"
    and p1: "pg1 = demo_page\<lparr>anon := (anon demo_page)\<lparr>swap_slot_idx := 1\<rparr>, frame := NULL\<rparr>"
    and d1: "\<forall>x < PGSIZE. disk s1 (1 * SECTORS_PER_PAGE + x div DISK_SECTOR_SIZE)
                          (x mod DISK_SECTOR_SIZE) = kmem demo_vm (kva \<lparr>kva = 8192\<rparr> + x)"
    and inp: "\<forall>f2 kv2. \<exists>s2 pg3.
            anon_swap_in s1 (pg1\<lparr>frame := f2\<rparr>) kv2 = (True, s2, pg3) \<and>
            (\<forall>x < PGSIZE. kmem s2 (kv2 + x) = kmem demo_vm (kva \<lparr>kva = 8192\<rparr> + x)) \<and>
            (\<forall>a. \<not> (kv2 \<le> a \<and> a < kv2 + PGSIZE) \<longrightarrow> kmem s2 a = kmem demo_vm a) \<and>
            swap_table s2 = swap_table demo_vm \<and> \<not> swap_table s2 ! 1 \<and>
            pg3 = demo_page\<lparr>frame := f2,
                    anon := (anon demo_page)\<lparr>swap_slot_idx := INVALID_SLOT_IDX\<rparr>\<rparr> \<and>
            (swap_slot_idx (anon demo_page) = INVALID_SLOT_IDX \<longrightarrow>
               pg3 = demo_page\<lparr>frame := f2\<rparr>) \<and>
            (f2 \<noteq> NULL \<longrightarrow>
               ((swap_slot_idx (anon pg3) = INVALID_SLOT_IDX) = (frame pg3 \<noteq> NULL))) \<and>
            disk s2 = disk s1 \<and>
            vm_trace s2 = vm_trace s1 @
              map (\<lambda>i. DiskRead (1 * SECTORS_PER_PAGE + i) (kv2 + i * DISK_SECTOR_SIZE))
                [0 ..< SECTORS_PER_PAGE]"
    by (elim exE conjE) (rule that; assumption)
  from inp [rule_format, of 7100 12288] obtain s2 pg3 where
    inn: "anon_swap_in s1 (pg1\<lparr>frame := 7100\<rparr>) 12288 = (True, s2, pg3)"
    and m2: "\<forall>x < PGSIZE. kmem s2 (12288 + x) = kmem demo_vm (kva \<lparr>kva = 8192\<rparr> + x)"
    and t2: "swap_table s2 = swap_table demo_vm"
    and p3: "swap_slot_idx (anon demo_page) = INVALID_SLOT_IDX \<longrightarrow>
               pg3 = demo_page\<lparr>frame := 7100\<rparr>"
    by (elim exE conjE) (rule that; assumption)
  have a1: "swap_table s1 = [True, True, False]" using t1 by (simp add: demo_vm_def)
  have a2: "swap_slot_idx (anon pg1) = 1" "frame pg1 = NULL" using p1 by simp_all
  from d1 have "0 < PGSIZE \<longrightarrow> disk s1 (1 * SECTORS_PER_PAGE + 0 div DISK_SECTOR_SIZE)
                          (0 mod DISK_SECTOR_SIZE) = kmem demo_vm (kva \<lparr>kva = 8192\<rparr> + 0)"
    by (rule spec)
  then have a3: "disk s1 8 0 = kmem demo_vm 8192"
    by (simp add: PGSIZE_def SECTORS_PER_PAGE_8 DISK_SECTOR_SIZE_def)
  from d1 have "4095 < PGSIZE \<longrightarrow> disk s1 (1 * SECTORS_PER_PAGE + 4095 div DISK_SECTOR_SIZE)
                          (4095 mod DISK_SECTOR_SIZE) = kmem demo_vm (kva \<lparr>kva = 8192\<rparr> + 4095)"
    by (rule spec)
  then have a4: "disk s1 15 511 = kmem demo_vm 12287"
    by (simp add: PGSIZE_def SECTORS_PER_PAGE_8 DISK_SECTOR_SIZE_def)
  from m2 have "0 < PGSIZE \<longrightarrow> kmem s2 (12288 + 0) = kmem demo_vm (kva \<lparr>kva = 8192\<rparr> + 0)"
    by (rule spec)
  then have b1: "kmem s2 12288 = kmem demo_vm 8192" by (simp add: PGSIZE_def)
  from m2 have "4095 < PGSIZE \<longrightarrow> kmem s2 (12288 + 4095) = kmem demo_vm (kva \<lparr>kva = 8192\<rparr> + 4095)"
    by (rule spec)
  then have b2: "kmem s2 16383 = kmem demo_vm 12287" by (simp add: PGSIZE_def)
  have b3: "swap_table s2 = [True, False, False]" using t2 by (simp add: demo_vm_def)
  have b4: "pg3 = demo_page\<lparr>frame := 7100\<rparr>" using p3 h(6) by simp
  from inn b1 b2 b3 b4
  have inner: "\<exists>s2 pg3. anon_swap_in s1 (pg1\<lparr>frame := 7100\<rparr>) 12288 = (True, s2, pg3) \<and>
         kmem s2 12288 = kmem demo_vm 8192 \<and> kmem s2 16383 = kmem demo_vm 12287 \<and>
         swap_table s2 = [True, False, False] \<and> pg3 = demo_page\<lparr>frame := 7100\<rparr>"
    by blast
  from out a1 a2 a3 a4 inner
  have "\<exists>s1 pg1. anon_swap_out demo_vm (Some demo_page) = Inr (True, s1, Some pg1) \<and>
      swap_table s1 = [True, True, False] \<and>
      swap_slot_idx (anon pg1) = 1 \<and> frame pg1 = NULL \<and>
      disk s1 8 0 = kmem demo_vm 8192 \<and> disk s1 15 511 = kmem demo_vm 12287 \<and>
      (\<exists>s2 pg3. anon_swap_in s1 (pg1\<lparr>frame := 7100\<rparr>) 12288 = (True, s2, pg3) \<and>
         kmem s2 12288 = kmem demo_vm 8192 \<and> kmem s2 16383 = kmem demo_vm 12287 \<and>
         swap_table s2 = [True, False, False] \<and> pg3 = demo_page\<lparr>frame := 7100\<rparr>)"
    by blast
  with h show ?thesis by blast
qed

text \<open>
  The claim as stated fails for a resident page when every slot of the swap table is
  taken: \<^verbatim>\<open>anon_swap_out\<close> does not return, it ends in \<^verbatim>\<open>PANIC\<close>.
\<close>

theorem swap_round_trip_counterexample:
  "frame demo_page \<noteq> NULL \<and> frames full_vm (frame demo_page) = Some \<lparr>kva = 8192\<rparr> \<and>
   swap_slot_idx (anon demo_page) = INVALID_SLOT_IDX \<and>
   swap_table full_vm = [True, True, True] \<and>
   anon_swap_out full_vm (Some demo_page) = Inl Panic"
  by (simp add: full_vm_def demo_vm_def demo_page_def anon_swap_out_def
        bitmap_scan_and_flip_def)

subsection \<open>Swap-in of a resident page\<close>

text \<open>
  Claim C9. \<^verbatim>\<open>anon_swap_in\<close> on a page whose slot id is the sentinel returns false, and
  the state (the swap table, the disk, memory, the record of sector transfers) and the
  page are as they were.
\<close>

theorem swap_in_resident:
  "swap_slot_idx (anon pg) = INVALID_SLOT_IDX \<longrightarrow> anon_swap_in s pg kv = (False, s, pg)"
  by (simp add: anon_swap_in_def)

theorem swap_in_resident_witness:
  "swap_slot_idx (anon demo_page) = INVALID_SLOT_IDX \<and>
   anon_swap_in demo_vm demo_page 8192 = (False, demo_vm, demo_page)"
proof -
  have "swap_slot_idx (anon demo_page) = INVALID_SLOT_IDX" by (simp add: demo_page_def)
  with swap_in_resident [of demo_page demo_vm 8192] show ?thesis by simp
qed

subsection \<open>Swap-out of a page without a frame\<close>

lemma swap_in_loop_table: "swap_table (swap_in_loop s slot kv i) = swap_table s"
proof (induction s slot kv i rule: swap_in_loop.induct)
  case (1 s slot kv i)
  show ?case
  proof (cases "i < SECTORS_PER_PAGE")
    case True
    from 1 [OF True] True show ?thesis
      by (subst swap_in_loop.simps) (simp add: disk_read_def)
  next
    case False
    then show ?thesis by (subst swap_in_loop.simps) simp
  qed
qed

lemma swap_out_loop_table: "swap_table (swap_out_loop s slot kv i) = swap_table s"
proof (induction s slot kv i rule: swap_out_loop.induct)
  case (1 s slot kv i)
  show ?case
  proof (cases "i < SECTORS_PER_PAGE")
    case True
    from 1 [OF True] True show ?thesis
      by (subst swap_out_loop.simps) (simp add: disk_write_def)
  next
    case False
    then show ?thesis by (subst swap_out_loop.simps) simp
  qed
qed

lemma bit_stays_in:
  assumes "k < length (swap_table t)" "swap_table t ! k" "swap_slot_idx (anon q) \<noteq> k"
    and "anon_swap_in t q kv = (r, t', q')"
  shows "length (swap_table t') = length (swap_table t) \<and> swap_table t' ! k"
  using assms
  by (auto simp: anon_swap_in_def Let_def bitmap_set_def swap_in_loop_table
        split: if_splits)

lemma bit_stays_destroy:
  assumes "k < length (swap_table t)" "swap_table t ! k" "swap_slot_idx (anon q) \<noteq> k"
    and "anon_destroy t q = Inr t'"
  shows "length (swap_table t') = length (swap_table t) \<and> swap_table t' ! k"
  using assms
  by (auto simp: anon_destroy_def bitmap_set_def free_def list_remove_def
        split: if_splits option.splits)

lemma bit_stays_out:
  assumes kl: "k < length (swap_table t)" and kb: "swap_table t ! k"
    and q: "\<forall>q. qo = Some q \<longrightarrow> swap_slot_idx (anon q) \<noteq> k"
    and out: "anon_swap_out t qo = Inr (r, t', q')"
  shows "length (swap_table t') = length (swap_table t) \<and> swap_table t' ! k \<and>
         (\<forall>q2. q' = Some q2 \<longrightarrow> swap_slot_idx (anon q2) \<noteq> k)"
proof (cases "bitmap_scan (swap_table t)")
  case None
  with out show ?thesis
    by (simp add: anon_swap_out_def scan_and_flip_None)
next
  case (Some j)
  from bitmap_scan_Some [OF Some] kb have jk: "j \<noteq> k" by auto
  let ?t0 = "t\<lparr>swap_table := (swap_table t)[j := True]\<rparr>"
  have tb: "swap_table (pml4_set_dirty (pml4_clear_page (swap_out_loop ?t0 j a 0) b c) b c False)
              = (swap_table t)[j := True]" for a b c
    by (simp add: pml4_set_dirty_def pml4_clear_page_def swap_out_loop_table)
  from out q jk kl kb show ?thesis
    by (auto simp: anon_swap_out_def scan_and_flip_Some [OF Some] Let_def tb
          split: if_splits option.splits)
qed

lemma free_count:
  assumes "k < length b" "\<not> b ! k"
  shows "length (filter Not (b[k := True])) + 1 = length (filter Not b)"
  using assms
proof (induction b arbitrary: k)
  case Nil
  then show ?case by simp
next
  case (Cons x xs)
  show ?case
  proof (cases k)
    case 0
    with Cons.prems show ?thesis by simp
  next
    case (Suc m)
    with Cons.prems have "m < length xs" "\<not> xs ! m" by simp_all
    from Cons.IH [OF this] Suc show ?thesis by simp
  qed
qed

lemma slot_stays_set:
  "k < length (swap_table t) \<and> swap_table t ! k \<and> swap_slot_idx (anon q) \<noteq> k \<longrightarrow>
     (\<forall>r t' q'. anon_swap_in t q kv = (r, t', q') \<longrightarrow>
        length (swap_table t') = length (swap_table t) \<and> swap_table t' ! k) \<and>
     (\<forall>t'. anon_destroy t q = Inr t' \<longrightarrow>
        length (swap_table t') = length (swap_table t) \<and> swap_table t' ! k) \<and>
     (\<forall>r t' q'. anon_swap_out t (Some q) = Inr (r, t', q') \<longrightarrow>
        length (swap_table t') = length (swap_table t) \<and> swap_table t' ! k \<and>
        (\<forall>q2. q' = Some q2 \<longrightarrow> swap_slot_idx (anon q2) \<noteq> k))"
proof (intro impI, elim conjE)
  assume a: "k < length (swap_table t)" "swap_table t ! k" "swap_slot_idx (anon q) \<noteq> k"
  have 1: "\<forall>r t' q'. anon_swap_in t q kv = (r, t', q') \<longrightarrow>
        length (swap_table t') = length (swap_table t) \<and> swap_table t' ! k"
    using bit_stays_in [OF a] by blast
  have 2: "\<forall>t'. anon_destroy t q = Inr t' \<longrightarrow>
        length (swap_table t') = length (swap_table t) \<and> swap_table t' ! k"
    using bit_stays_destroy [OF a] by blast
  from a(3) have "\<forall>q0. Some q = Some q0 \<longrightarrow> swap_slot_idx (anon q0) \<noteq> k" by simp
  from bit_stays_out [OF a(1,2) this]
  have 3: "\<forall>r t' q'. anon_swap_out t (Some q) = Inr (r, t', q') \<longrightarrow>
        length (swap_table t') = length (swap_table t) \<and> swap_table t' ! k \<and>
        (\<forall>q2. q' = Some q2 \<longrightarrow> swap_slot_idx (anon q2) \<noteq> k)"
    by blast
  from 1 2 3 show "(\<forall>r t' q'. anon_swap_in t q kv = (r, t', q') \<longrightarrow>
        length (swap_table t') = length (swap_table t) \<and> swap_table t' ! k) \<and>
     (\<forall>t'. anon_destroy t q = Inr t' \<longrightarrow>
        length (swap_table t') = length (swap_table t) \<and> swap_table t' ! k) \<and>
     (\<forall>r t' q'. anon_swap_out t (Some q) = Inr (r, t', q') \<longrightarrow>
        length (swap_table t') = length (swap_table t) \<and> swap_table t' ! k \<and>
        (\<forall>q2. q' = Some q2 \<longrightarrow> swap_slot_idx (anon q2) \<noteq> k))"
    by (intro conjI)
qed

text \<open>
  Claim C10, as the code has it. \<^verbatim>\<open>anon_swap_out\<close> on a null page, on a page without a
  frame, or on a page whose frame has a null address:
  \<^item> when no slot is free, ends in the kernel panic, and returns nothing;
  \<^item> otherwise returns false, and the state differs from the one before in bit \<open>k\<close> of
    the swap table only, \<open>k\<close> the first free slot: the bit is set, there is one free
    slot less, and the page is as it was, so that no page got the slot id \<open>k\<close>;
  \<^item> a set bit \<open>k\<close> stays set: \<^verbatim>\<open>anon_swap_in\<close>, \<^verbatim>\<open>anon_destroy\<close> and \<^verbatim>\<open>anon_swap_out\<close> on a
    page whose slot id is not \<open>k\<close> leave it set, and \<^verbatim>\<open>anon_swap_out\<close> gives no page the
    slot id \<open>k\<close>.
\<close>

theorem swap_out_no_frame:
  "(num_sector < 2 ^ 32 \<longrightarrow> swap_wf (vm_anon_init s0 num_sector)) \<and>
   (swap_wf s \<and>
    (page = None \<or>
     (\<exists>pg. page = Some pg \<and>
        (frame pg = NULL \<or> (\<exists>fr. frames s (frame pg) = Some fr \<and> kva fr = NULL)))) \<longrightarrow>
    (bitmap_scan (swap_table s) = None \<longrightarrow> anon_swap_out s page = Inl Panic) \<and>
    (\<forall>k. bitmap_scan (swap_table s) = Some k \<longrightarrow>
       anon_swap_out s page = Inr (False, s\<lparr>swap_table := (swap_table s)[k := True]\<rparr>, page) \<and>
       k < length (swap_table s) \<and> \<not> swap_table s ! k \<and> (\<forall>j < k. swap_table s ! j) \<and>
       (swap_table s)[k := True] ! k \<and>
       (\<forall>j. j \<noteq> k \<longrightarrow> (swap_table s)[k := True] ! j = swap_table s ! j) \<and>
       length (filter Not ((swap_table s)[k := True])) + 1 = length (filter Not (swap_table s)) \<and>
       swap_wf (s\<lparr>swap_table := (swap_table s)[k := True]\<rparr>) \<and>
       (\<forall>t q kv. k < length (swap_table t) \<and> swap_table t ! k \<and> swap_slot_idx (anon q) \<noteq> k \<longrightarrow>
          (\<forall>r t' q'. anon_swap_in t q kv = (r, t', q') \<longrightarrow>
             length (swap_table t') = length (swap_table t) \<and> swap_table t' ! k) \<and>
          (\<forall>t'. anon_destroy t q = Inr t' \<longrightarrow>
             length (swap_table t') = length (swap_table t) \<and> swap_table t' ! k) \<and>
          (\<forall>r t' q'. anon_swap_out t (Some q) = Inr (r, t', q') \<longrightarrow>
             length (swap_table t') = length (swap_table t) \<and> swap_table t' ! k \<and>
             (\<forall>q2. q' = Some q2 \<longrightarrow> swap_slot_idx (anon q2) \<noteq> k)))))"
  (is "_ \<and> (?hyp \<longrightarrow> ?none \<and> (\<forall>k. ?scan k \<longrightarrow> ?body k))")
proof (intro conjI)
  show "num_sector < 2 ^ 32 \<longrightarrow> swap_wf (vm_anon_init s0 num_sector)"
    by (simp add: vm_anon_init_wf)
next
  show "?hyp \<longrightarrow> ?none \<and> (\<forall>k. ?scan k \<longrightarrow> ?body k)"
  proof (intro impI, elim conjE)
    assume wf: "swap_wf s"
      and nf: "page = None \<or>
        (\<exists>pg. page = Some pg \<and>
           (frame pg = NULL \<or> (\<exists>fr. frames s (frame pg) = Some fr \<and> kva fr = NULL)))"
    have none: ?none
    proof
      assume n: "bitmap_scan (swap_table s) = None"
      show "anon_swap_out s page = Inl Panic"
        by (simp add: anon_swap_out_def scan_and_flip_None [OF n])
    qed
    have some: "?scan k \<longrightarrow> ?body k" for k
    proof
      assume k: "bitmap_scan (swap_table s) = Some k"
      from bitmap_scan_Some [OF k]
      have kl: "k < length (swap_table s)" and nk: "\<not> swap_table s ! k"
        and first: "\<forall>j < k. swap_table s ! j" by auto
      from slot_small [OF wf kl] have ne: "k \<noteq> BITMAP_ERROR" by simp
      have res: "anon_swap_out s page =
                   Inr (False, s\<lparr>swap_table := (swap_table s)[k := True]\<rparr>, page)"
      proof (cases page)
        case None
        then show ?thesis
          by (simp add: anon_swap_out_def scan_and_flip_Some [OF k] ne)
      next
        case (Some pg)
        with nf have "frame pg = NULL \<or> (\<exists>fr. frames s (frame pg) = Some fr \<and> kva fr = NULL)"
          by simp
        from no_frame_result [OF wf k this] Some show ?thesis by simp
      qed
      have set: "(swap_table s)[k := True] ! k" using kl by simp
      have others: "\<forall>j. j \<noteq> k \<longrightarrow> (swap_table s)[k := True] ! j = swap_table s ! j" by simp
      have cnt: "length (filter Not ((swap_table s)[k := True])) + 1 =
                   length (filter Not (swap_table s))"
        by (rule free_count [OF kl nk])
      have wf': "swap_wf (s\<lparr>swap_table := (swap_table s)[k := True]\<rparr>)"
        using wf by (simp add: swap_wf_def)
      have persist: "\<forall>t q kv. k < length (swap_table t) \<and> swap_table t ! k \<and>
            swap_slot_idx (anon q) \<noteq> k \<longrightarrow>
          (\<forall>r t' q'. anon_swap_in t q kv = (r, t', q') \<longrightarrow>
             length (swap_table t') = length (swap_table t) \<and> swap_table t' ! k) \<and>
          (\<forall>t'. anon_destroy t q = Inr t' \<longrightarrow>
             length (swap_table t') = length (swap_table t) \<and> swap_table t' ! k) \<and>
          (\<forall>r t' q'. anon_swap_out t (Some q) = Inr (r, t', q') \<longrightarrow>
             length (swap_table t') = length (swap_table t) \<and> swap_table t' ! k \<and>
             (\<forall>q2. q' = Some q2 \<longrightarrow> swap_slot_idx (anon q2) \<noteq> k))"
        by (intro allI) (rule slot_stays_set)
      from res kl nk first set others cnt wf' persist
      show "?body k" by (intro conjI)
    qed
    show "?none \<and> (\<forall>k. ?scan k \<longrightarrow> ?body k)"
    proof (intro conjI allI)
      show ?none by (rule none)
      show "?scan k \<longrightarrow> ?body k" for k by (rule some)
    qed
  qed
qed


theorem swap_out_no_frame_witness:
  "swap_wf demo_vm \<and> frame bare_page = NULL \<and>
   bitmap_scan (swap_table demo_vm) = Some 1 \<and>
   anon_swap_out demo_vm (Some bare_page) =
     Inr (False, demo_vm\<lparr>swap_table := [True, True, False]\<rparr>, Some bare_page) \<and>
   length (filter Not [True, True, False]) + 1 = length (filter Not (swap_table demo_vm)) \<and>
   anon_swap_out (demo_vm\<lparr>swap_table := [True, True, False]\<rparr>) (Some bare_page) =
     Inr (False, demo_vm\<lparr>swap_table := [True, True, True]\<rparr>, Some bare_page)"
proof -
  let ?s = "demo_vm\<lparr>swap_table := [True, True, False]\<rparr>"
  have nf: "frame bare_page = NULL" by (simp add: bare_page_def)
  have wf: "swap_wf demo_vm" "swap_wf ?s"
    by (simp_all add: swap_wf_def demo_vm_def SECTORS_PER_PAGE_8)
  have sc: "bitmap_scan (swap_table demo_vm) = Some 1" "bitmap_scan (swap_table ?s) = Some 2"
    by (simp_all add: demo_vm_def)
  have hyp: "swap_wf demo_vm \<and>
    (Some bare_page = None \<or>
     (\<exists>pg. Some bare_page = Some pg \<and>
        (frame pg = NULL \<or> (\<exists>fr. frames demo_vm (frame pg) = Some fr \<and> kva fr = NULL))))"
    using wf nf by simp
  have hyp2: "swap_wf ?s \<and>
    (Some bare_page = None \<or>
     (\<exists>pg. Some bare_page = Some pg \<and>
        (frame pg = NULL \<or> (\<exists>fr. frames ?s (frame pg) = Some fr \<and> kva fr = NULL))))"
    using wf nf by simp
  note r1 = swap_out_no_frame [of 0 demo_vm demo_vm "Some bare_page", THEN conjunct2, THEN mp,
      OF hyp, THEN conjunct2, THEN spec, THEN mp, OF sc(1), THEN conjunct1]
  note r2 = swap_out_no_frame [of 0 demo_vm ?s "Some bare_page", THEN conjunct2, THEN mp,
      OF hyp2, THEN conjunct2, THEN spec, THEN mp, OF sc(2), THEN conjunct1]
  have a: "anon_swap_out demo_vm (Some bare_page) = Inr (False, ?s, Some bare_page)"
    using r1 by (simp add: demo_vm_def)
  have b: "anon_swap_out ?s (Some bare_page) =
             Inr (False, demo_vm\<lparr>swap_table := [True, True, True]\<rparr>, Some bare_page)"
    using r2 by (simp add: demo_vm_def)
  have c: "length (filter Not [True, True, False]) + 1 = length (filter Not (swap_table demo_vm))"
    by (simp add: demo_vm_def)
  from wf(1) nf sc(1) a c b show ?thesis by (intro conjI)
qed

text \<open>
  The claim as stated fails when every slot is taken: for a page without a frame
  \<^verbatim>\<open>anon_swap_out\<close> does not return false, it ends in \<^verbatim>\<open>PANIC\<close>.
\<close>

theorem swap_out_no_frame_counterexample:
  "frame bare_page = NULL \<and> swap_table full_vm = [True, True, True] \<and>
   anon_swap_out full_vm (Some bare_page) = Inl Panic"
  by (simp add: full_vm_def demo_vm_def bare_page_def demo_page_def anon_swap_out_def
        bitmap_scan_and_flip_def)

subsection \<open>Destroy\<close>




end
